theory Spec2Isabelle
  imports Main
begin

section \<open>The constraint model of the engine\<close>

text \<open>
  Modelled from the spec: the modelling interface of the constraint-solving engine, an
  external library that is no part of the repository. The recipe
  \<^verbatim>\<open>recipes/table-optional.py\<close> only emits variables and constraints into a model
  object of the engine (creation of Boolean variables, of linear equalities and of Boolean
  conjunctions, each with conditional activation). The model is data here: the list of
  its variables (each with its index in the model, its name and its domain bounds), the
  list of its constraints and an optional objective. A decision variable handle
  (\<^verbatim>\<open>cp_model.IntVar\<close>) carries the index, the name and the domain of the variable it
  stands for; a new variable gets the next index of the model.
\<close>

record intvar =
  var_index :: nat
  var_name :: string
  var_lb :: int
  var_ub :: int

text \<open>
  The two primitive constraints the recipe emits: a linear equality
  \<^verbatim>\<open>sum(xs) == c\<close> over variables given by index, and a Boolean conjunction of
  literals. Each constraint carries the literals of \<^verbatim>\<open>OnlyEnforceIf\<close>.
\<close>

datatype ct_body = LinearEq "nat list" int | BoolAnd "nat list"

record constraint =
  ct_body :: ct_body
  enforcement_literal :: "nat list"

record cp_model =
  m_variables :: "intvar list"
  m_constraints :: "constraint list"
  m_objective :: "nat list option"

definition CpModel :: cp_model where
  "CpModel = \<lparr>m_variables = [], m_constraints = [], m_objective = None\<rparr>"

definition NewIntVar :: "int \<Rightarrow> int \<Rightarrow> string \<Rightarrow> cp_model \<Rightarrow> intvar \<times> cp_model" where
  "NewIntVar l u nm m =
     (let v = \<lparr>var_index = length (m_variables m), var_name = nm, var_lb = l, var_ub = u\<rparr>
      in (v, m\<lparr>m_variables := m_variables m @ [v]\<rparr>))"

definition NewBoolVar :: "string \<Rightarrow> cp_model \<Rightarrow> intvar \<times> cp_model" where
  "NewBoolVar nm m = NewIntVar 0 1 nm m"

text \<open>
  \<^verbatim>\<open>model.Add(LinearExpr.Sum(xs) == c).OnlyEnforceIf(lits)\<close>; a single variable
  \<^verbatim>\<open>x == c\<close> is the sum of the one-element list. An unconditional
  \<^verbatim>\<open>model.Add(...)\<close> has no enforcement literal.

  The spec gives conditional activation by a Boolean variable only, and that is what
  \<open>Add\<close> and \<open>AddBoolAnd\<close> model: they record the literals they are given. Whether the
  engine accepts an enforcement literal whose domain is not \<open>{0, 1}\<close> is not determined
  by the source or the spec (engines differ: one raises an error at the call, another
  takes the literal and later reports the model invalid), so nothing below is stated
  about the outcome of a call whose option is not Boolean beyond its assertions.
\<close>

definition linear_eq :: "intvar list \<Rightarrow> int \<Rightarrow> intvar list \<Rightarrow> constraint" where
  "linear_eq xs c lits =
     \<lparr>ct_body = LinearEq (map var_index xs) c, enforcement_literal = map var_index lits\<rparr>"

definition Add :: "intvar list \<Rightarrow> int \<Rightarrow> intvar list \<Rightarrow> cp_model \<Rightarrow> cp_model" where
  "Add xs c lits m = m\<lparr>m_constraints := m_constraints m @ [linear_eq xs c lits]\<rparr>"

text \<open>\<^verbatim>\<open>model.AddBoolAnd(ls).OnlyEnforceIf(lits)\<close>\<close>

definition bool_and :: "intvar list \<Rightarrow> intvar list \<Rightarrow> constraint" where
  "bool_and ls lits =
     \<lparr>ct_body = BoolAnd (map var_index ls), enforcement_literal = map var_index lits\<rparr>"

definition AddBoolAnd :: "intvar list \<Rightarrow> intvar list \<Rightarrow> cp_model \<Rightarrow> cp_model" where
  "AddBoolAnd ls lits m = m\<lparr>m_constraints := m_constraints m @ [bool_and ls lits]\<rparr>"

definition Minimize :: "intvar list \<Rightarrow> cp_model \<Rightarrow> cp_model" where
  "Minimize xs m = m\<lparr>m_objective := Some (map var_index xs)\<rparr>"

subsection \<open>What a solution is\<close>

text \<open>
  Modelled from the spec: what the engine accepts as a solution. An assignment gives
  every variable index an integer. A literal is true when its variable has the value 1.
  A constraint is only required to hold when all its enforcement literals are true
  (conditional activation), and is otherwise unconstrained; a solution keeps every
  variable inside its declared domain and satisfies every constraint.
\<close>

type_synonym assignment = "nat \<Rightarrow> int"

fun body_holds :: "assignment \<Rightarrow> ct_body \<Rightarrow> bool" where
  "body_holds a (LinearEq xs c) = (sum_list (map a xs) = c)"
| "body_holds a (BoolAnd ls) = list_all (\<lambda>l. a l = 1) ls"

definition ct_holds :: "assignment \<Rightarrow> constraint \<Rightarrow> bool" where
  "ct_holds a c =
     (if list_all (\<lambda>l. a l = 1) (enforcement_literal c) then body_holds a (ct_body c) else True)"

definition in_domain :: "assignment \<Rightarrow> intvar \<Rightarrow> bool" where
  "in_domain a v = (var_lb v \<le> a (var_index v) \<and> a (var_index v) \<le> var_ub v)"

definition satisfies :: "assignment \<Rightarrow> cp_model \<Rightarrow> bool" where
  "satisfies a m = (list_all (in_domain a) (m_variables m) \<and> list_all (ct_holds a) (m_constraints m))"

text \<open>
  The part of a model \<open>m'\<close> that was added to it since it was \<open>m\<close>: an assignment
  satisfies what was emitted when the new variables are in their domains and the new
  constraints hold.
\<close>

definition emitted_sat :: "assignment \<Rightarrow> cp_model \<Rightarrow> cp_model \<Rightarrow> bool" where
  "emitted_sat a m m' =
     (list_all (in_domain a) (drop (length (m_variables m)) (m_variables m')) \<and>
      list_all (ct_holds a) (drop (length (m_constraints m)) (m_constraints m')))"

definition objective_value :: "assignment \<Rightarrow> cp_model \<Rightarrow> int" where
  "objective_value a m = (case m_objective m of None \<Rightarrow> 0 | Some xs \<Rightarrow> sum_list (map a xs))"

section \<open>The arguments as Python objects\<close>

text \<open>
  \<^verbatim>\<open>table_optional\<close> checks the run-time types of its arguments with
  \<^verbatim>\<open>assert isinstance(...)\<close>, so the arguments are Python objects: an integer (a
  Python \<^verbatim>\<open>bool\<close> is an \<^verbatim>\<open>int\<close> and passes as 0 or 1), a decision variable, a list
  or tuple, a model, or anything else.
\<close>

datatype pyobj =
    PyInt int
  | PyIntVar intvar
  | PySeq "pyobj list"
  | PyModel cp_model
  | PyNone

datatype py_error = AssertionError | ValueError | KeyError

definition py_vars :: "intvar list \<Rightarrow> pyobj" where
  "py_vars vs = PySeq (map PyIntVar vs)"

definition py_tuples :: "int list list \<Rightarrow> pyobj" where
  "py_tuples ts = PySeq (map (\<lambda>t. PySeq (map PyInt t)) ts)"

section \<open>table\_optional\<close>

subsection \<open>The assertions (lines 20 to 33)\<close>

text \<open>\<^verbatim>\<open>for v in variables: assert isinstance(v, cp_model.IntVar)\<close>\<close>

fun check_variables :: "pyobj list \<Rightarrow> intvar list option" where
  "check_variables [] = Some []"
| "check_variables (PyIntVar v # r) = map_option ((#) v) (check_variables r)"
| "check_variables (_ # r) = None"

text \<open>\<^verbatim>\<open>for i in t: assert isinstance(i, int); assert i >= 0\<close>\<close>

fun check_tuple :: "pyobj list \<Rightarrow> int list option" where
  "check_tuple [] = Some []"
| "check_tuple (PyInt i # r) = (if i \<ge> 0 then map_option ((#) i) (check_tuple r) else None)"
| "check_tuple (_ # r) = None"

text \<open>\<^verbatim>\<open>for t in tuples: assert isinstance(t, List | Tuple); ...\<close>\<close>

fun check_tuples :: "pyobj list \<Rightarrow> int list list option" where
  "check_tuples [] = Some []"
| "check_tuples (PySeq t # r) =
     (case check_tuple t of
        None \<Rightarrow> None
      | Some t' \<Rightarrow> map_option ((#) t') (check_tuples r))"
| "check_tuples (_ # r) = None"

text \<open>
  The assertions in the order of the source; \<open>None\<close> is a failed assertion. Only the
  first tuple's length is compared with the number of variables (line 32).
\<close>

definition check_args ::
  "pyobj \<Rightarrow> pyobj \<Rightarrow> pyobj \<Rightarrow> pyobj \<Rightarrow> (cp_model \<times> intvar list \<times> int list list \<times> intvar) option" where
  "check_args model variables tuples option =
     (case model of
        PyModel m \<Rightarrow>
          (case variables of
             PySeq vs \<Rightarrow>
               if length vs > 0 then
                 (case check_variables vs of
                    Some vs' \<Rightarrow>
                      (case tuples of
                         PySeq ts \<Rightarrow>
                           if length ts > 0 then
                             (case check_tuples ts of
                                Some ts' \<Rightarrow>
                                  if length vs' = length (ts' ! 0) then
                                    (case option of
                                       PyIntVar opt \<Rightarrow> Some (m, vs', ts', opt)
                                     | _ \<Rightarrow> None)
                                  else None
                              | None \<Rightarrow> None)
                           else None
                       | _ \<Rightarrow> None)
                  | None \<Rightarrow> None)
               else None
           | _ \<Rightarrow> None)
      | _ \<Rightarrow> None)"

subsection \<open>The names of the auxiliary variables\<close>

text \<open>Python's \<^verbatim>\<open>f"{i}"\<close> for a nonnegative integer: its decimal digits.\<close>

function show_nat :: "nat \<Rightarrow> string" where
  "show_nat n =
     (if n < 10 then [char_of (48 + n)]
      else show_nat (n div 10) @ [char_of (48 + n mod 10)])"
  by pat_completeness auto
termination
  by (relation "measure id") auto

declare show_nat.simps [simp del]

definition b_name :: "nat \<Rightarrow> string" where
  "b_name i = ''b['' @ show_nat i @ '']''"

definition is_assigned_name :: "nat \<Rightarrow> nat \<Rightarrow> string" where
  "is_assigned_name i j = ''is_assigned['' @ show_nat i @ '']['' @ show_nat j @ '']''"

subsection \<open>Creating the auxiliary variables (lines 37 and 47 to 49)\<close>

text \<open>A list comprehension of \<^verbatim>\<open>model.NewBoolVar(name)\<close>, one call after the other.\<close>

fun new_bool_vars :: "string list \<Rightarrow> cp_model \<Rightarrow> intvar list \<times> cp_model" where
  "new_bool_vars [] m = ([], m)"
| "new_bool_vars (nm # nms) m =
     (case NewBoolVar nm m of
        (v, m1) \<Rightarrow> (case new_bool_vars nms m1 of (vs, m2) \<Rightarrow> (v # vs, m2)))"

fun new_bool_rows :: "string list list \<Rightarrow> cp_model \<Rightarrow> intvar list list \<times> cp_model" where
  "new_bool_rows [] m = ([], m)"
| "new_bool_rows (row # rows) m =
     (case new_bool_vars row m of
        (vs, m1) \<Rightarrow> (case new_bool_rows rows m1 of (vss, m2) \<Rightarrow> (vs # vss, m2)))"

subsection \<open>The values of the tuples (lines 40 to 44)\<close>

text \<open>
  Python's \<^verbatim>\<open>max\<close> of a sequence raises \<^verbatim>\<open>ValueError\<close> on an empty one; \<open>None\<close> is
  that error.
\<close>

fun py_max :: "int list \<Rightarrow> int option" where
  "py_max [] = None"
| "py_max (x # xs) = Some (fold max xs x)"

fun maxima :: "int list list \<Rightarrow> int list option" where
  "maxima [] = Some []"
| "maxima (t # ts) =
     (case py_max t of
        None \<Rightarrow> None
      | Some x \<Rightarrow> map_option ((#) x) (maxima ts))"

text \<open>\<^verbatim>\<open>max_value = max(max(t) for t in tuples)\<close>\<close>

definition max_value :: "int list list \<Rightarrow> int option" where
  "max_value tuples = (case maxima tuples of None \<Rightarrow> None | Some xs \<Rightarrow> py_max xs)"

text \<open>
  \<^verbatim>\<open>possible_values\<close> is a dictionary from the positions \<open>0..N-1\<close> to sets of values.
  \<^verbatim>\<open>possible_values[i].add(j)\<close> raises \<^verbatim>\<open>KeyError\<close> when \<open>i\<close> is not a key, which
  happens for a tuple longer than \<^verbatim>\<open>variables\<close>; \<open>None\<close> is that error.
\<close>

type_synonym values_dict = "nat \<rightharpoonup> int set"

definition init_possible_values :: "nat \<Rightarrow> values_dict" where
  "init_possible_values n = (\<lambda>i. if i < n then Some {} else None)"

fun add_values :: "values_dict \<Rightarrow> (nat \<times> int) list \<Rightarrow> values_dict option" where
  "add_values pv [] = Some pv"
| "add_values pv ((i, j) # r) =
     (case pv i of
        None \<Rightarrow> None
      | Some s \<Rightarrow> add_values (pv(i \<mapsto> insert j s)) r)"

fun add_tuples :: "values_dict \<Rightarrow> int list list \<Rightarrow> values_dict option" where
  "add_tuples pv [] = Some pv"
| "add_tuples pv (t # ts) =
     (case add_values pv (enumerate 0 t) of
        None \<Rightarrow> None
      | Some pv' \<Rightarrow> add_tuples pv' ts)"

text \<open>
  \<^verbatim>\<open>j not in possible_values[i]\<close>, read for \<open>i\<close> in \<^verbatim>\<open>range(len(variables))\<close> only,
  where the key is always present (lemma \<open>add_tuples_dom\<close> below).
\<close>

definition not_possible :: "values_dict \<Rightarrow> nat \<Rightarrow> int \<Rightarrow> bool" where
  "not_possible pv i j = (case pv i of None \<Rightarrow> False | Some s \<Rightarrow> j \<notin> s)"

subsection \<open>Emitting the constraints (lines 52 to 71)\<close>

text \<open>
  Each loop of the source is a fold over the model. \<open>M\<close> is \<^verbatim>\<open>max_value+1\<close>, the
  length of \<^verbatim>\<open>range(max_value+1)\<close>.
\<close>

definition prune_impossible ::
  "values_dict \<Rightarrow> intvar list list \<Rightarrow> intvar \<Rightarrow> nat \<Rightarrow> nat \<Rightarrow> cp_model \<Rightarrow> cp_model" where
  "prune_impossible pv is_assigned option N M m =
     fold (\<lambda>i. fold (\<lambda>j m'.
             if not_possible pv i (int j) then Add [is_assigned ! i ! j] 0 [option] m' else m')
           [0..<M])
       [0..<N] m"

definition one_value_each :: "intvar list list \<Rightarrow> intvar \<Rightarrow> cp_model \<Rightarrow> cp_model" where
  "one_value_each is_assigned option m = fold (\<lambda>i. Add i 1 [option]) is_assigned m"

definition link_variables ::
  "intvar list \<Rightarrow> intvar list list \<Rightarrow> nat \<Rightarrow> nat \<Rightarrow> cp_model \<Rightarrow> cp_model" where
  "link_variables variables is_assigned N M m =
     fold (\<lambda>i. fold (\<lambda>j. Add [variables ! i] (int j) [is_assigned ! i ! j]) [0..<M]) [0..<N] m"

definition table_constraint ::
  "int list list \<Rightarrow> intvar list list \<Rightarrow> intvar list \<Rightarrow> cp_model \<Rightarrow> cp_model" where
  "table_constraint tuples is_assigned b m =
     fold (\<lambda>(i, t). AddBoolAnd (map (\<lambda>j. is_assigned ! j ! nat (t ! j)) [0..<length t]) [b ! i])
       (enumerate 0 tuples) m"

subsection \<open>The function\<close>

text \<open>
  The body after the assertions. It returns the locals \<^verbatim>\<open>b\<close> and \<^verbatim>\<open>is_assigned\<close>
  with the model, so that properties of the auxiliary variables can be stated; an
  exception comes with the model as the statements before it left it.

  The indexings \<^verbatim>\<open>is_assigned[i][j]\<close>, \<^verbatim>\<open>variables[i]\<close>, \<^verbatim>\<open>b[i]\<close> and \<^verbatim>\<open>t[j]\<close> are
  all in range when they are reached: \<open>i\<close> and \<open>j\<close> run over the ranges the lists were
  built from, no tuple is longer than \<^verbatim>\<open>variables\<close> once line 44 has passed (lemma
  \<open>tuple_not_longer\<close> below), and a tuple's value is between 0 (line 31) and
  \<^verbatim>\<open>max_value\<close> (lemma \<open>max_value_ge\<close>).
\<close>

definition table_optional_body ::
  "cp_model \<Rightarrow> intvar list \<Rightarrow> int list list \<Rightarrow> intvar \<Rightarrow>
     (py_error \<times> cp_model) + (intvar list \<times> intvar list list \<times> cp_model)" where
  "table_optional_body model variables tuples option =
     (case new_bool_vars (map b_name [0..<length tuples]) model of
        (b, m1) \<Rightarrow>
          (case max_value tuples of
             None \<Rightarrow> Inl (ValueError, m1)
           | Some mv \<Rightarrow>
               (case add_tuples (init_possible_values (length variables)) tuples of
                  None \<Rightarrow> Inl (KeyError, m1)
                | Some possible_values \<Rightarrow>
                    (case new_bool_rows
                            (map (\<lambda>i. map (is_assigned_name i) [0..<nat (mv + 1)])
                               [0..<length variables]) m1 of
                       (is_assigned, m2) \<Rightarrow>
                         Inr (b, is_assigned,
                           Add b 1 [option]
                             (table_constraint tuples is_assigned b
                               (link_variables variables is_assigned
                                  (length variables) (nat (mv + 1))
                                 (one_value_each is_assigned option
                                   (prune_impossible possible_values is_assigned option
                                      (length variables) (nat (mv + 1)) m2)))))))))"

text \<open>
  The call: a failed assertion leaves the \<^verbatim>\<open>model\<close> argument as it was; a later
  exception leaves the model with what had been added to it; a normal return gives the
  extended model.
\<close>

definition table_optional ::
  "pyobj \<Rightarrow> pyobj \<Rightarrow> pyobj \<Rightarrow> pyobj \<Rightarrow> (py_error \<times> pyobj) + cp_model" where
  "table_optional model variables tuples option =
     (case check_args model variables tuples option of
        None \<Rightarrow> Inl (AssertionError, model)
      | Some (m, vs, ts, opt) \<Rightarrow>
          (case table_optional_body m vs ts opt of
             Inl (e, m1) \<Rightarrow> Inl (e, PyModel m1)
           | Inr (b, is_assigned, m') \<Rightarrow> Inr m'))"

subsection \<open>The demonstration (lines 74 to 95)\<close>

fun new_int_vars :: "int \<Rightarrow> int \<Rightarrow> string list \<Rightarrow> cp_model \<Rightarrow> intvar list \<times> cp_model" where
  "new_int_vars l u [] m = ([], m)"
| "new_int_vars l u (nm # nms) m =
     (case NewIntVar l u nm m of
        (v, m1) \<Rightarrow> (case new_int_vars l u nms m1 of (vs, m2) \<Rightarrow> (v # vs, m2)))"

definition v_name :: "nat \<Rightarrow> string" where
  "v_name i = ''v['' @ show_nat i @ '']''"

text \<open>
  The model as the script hands it to the solver, with the variables \<^verbatim>\<open>v\<close> and the
  option \<^verbatim>\<open>b\<close>.
\<close>

definition demo :: "(py_error \<times> pyobj) + (intvar list \<times> intvar \<times> cp_model)" where
  "demo =
     (case new_int_vars 0 10 (map v_name [0..<5]) CpModel of
        (v, m1) \<Rightarrow>
          (case NewBoolVar ''b'' m1 of
             (b, m2) \<Rightarrow>
               (case table_optional (PyModel m2) (py_vars v)
                       (py_tuples [[0, 1, 2, 3, 4], [5, 6, 7, 8, 9]]) (PyIntVar b) of
                  Inl e \<Rightarrow> Inl e
                | Inr m3 \<Rightarrow> Inr (v, b, Add [b] 1 [] (Minimize v m3)))))"

section \<open>Notions used in the statements\<close>

subsection \<open>The emitted constraints in closed form\<close>

text \<open>
  What each loop appends to the model, as a list; the lemmas of the next section show
  that the folds of \<open>table_optional_body\<close> append exactly these lists.
\<close>

definition prune_cts :: "values_dict \<Rightarrow> intvar list list \<Rightarrow> intvar \<Rightarrow> nat \<Rightarrow> nat \<Rightarrow> constraint list" where
  "prune_cts pv ia opt N M =
     concat (map (\<lambda>i. concat (map (\<lambda>j.
        if not_possible pv i (int j) then [linear_eq [ia ! i ! j] 0 [opt]] else []) [0..<M])) [0..<N])"

definition link_cts :: "intvar list \<Rightarrow> intvar list list \<Rightarrow> nat \<Rightarrow> nat \<Rightarrow> constraint list" where
  "link_cts vs ia N M =
     concat (map (\<lambda>i. map (\<lambda>j. linear_eq [vs ! i] (int j) [ia ! i ! j]) [0..<M]) [0..<N])"

definition table_cts :: "int list list \<Rightarrow> intvar list list \<Rightarrow> intvar list \<Rightarrow> constraint list" where
  "table_cts ts ia b =
     map (\<lambda>(k, t). bool_and (map (\<lambda>j. ia ! j ! nat (t ! j)) [0..<length t]) [b ! k]) (enumerate 0 ts)"

subsection \<open>Valid input\<close>

text \<open>
  The preconditions of the encoder on the shape of its input: a non-empty list of
  variables, a non-empty list of tuples, every tuple as long as the list of variables
  and made of nonnegative integers. The assertions of the source check all of this
  except the lengths of the tuples after the first.
\<close>

definition valid_input :: "intvar list \<Rightarrow> int list list \<Rightarrow> bool" where
  "valid_input vs ts =
     (vs \<noteq> [] \<and> ts \<noteq> [] \<and> (\<forall>t \<in> set ts. length t = length vs \<and> (\<forall>x \<in> set t. 0 \<le> x)))"

subsection \<open>A small model for concrete instances\<close>

text \<open>
  A model with two integer variables \<open>x\<close> and \<open>y\<close> in \<open>[0, 5]\<close> and a Boolean \<open>o\<close>, and
  the tuples \<open>(0, 1)\<close> and \<open>(2, 0)\<close>. The encoder gives the indicators \<open>b\<close> the indices
  3 and 4 and the indicators \<open>is_assigned\<close> the indices 5 to 10. \<open>ex_on\<close> is a solution
  with the option true that realises the tuple \<open>(2, 0)\<close>; \<open>ex_off\<close> is a solution with the
  option false in which \<open>is_assigned[0][2]\<close> is true.
\<close>

definition ex_x :: intvar where
  "ex_x = \<lparr>var_index = 0, var_name = ''x'', var_lb = 0, var_ub = 5\<rparr>"

definition ex_y :: intvar where
  "ex_y = \<lparr>var_index = 1, var_name = ''y'', var_lb = 0, var_ub = 5\<rparr>"

definition ex_o :: intvar where
  "ex_o = \<lparr>var_index = 2, var_name = ''o'', var_lb = 0, var_ub = 1\<rparr>"

definition ex_model :: cp_model where
  "ex_model = \<lparr>m_variables = [ex_x, ex_y, ex_o], m_constraints = [], m_objective = None\<rparr>"

definition ex_tuples :: "int list list" where
  "ex_tuples = [[0, 1], [2, 0]]"

definition ex_on :: assignment where
  "ex_on = (\<lambda>n. if n = 0 then 2 else if n \<in> set [2, 4, 7, 8] then 1 else 0)"

definition ex_off :: assignment where
  "ex_off = (\<lambda>n. if n = 0 then 2 else if n = 7 then 1 else 0)"

text \<open>
  \<open>ex_short\<close> is an assignment for the call with the tuples \<open>(0, 1)\<close> and \<open>(2)\<close>, the
  second one shorter than the list of variables: the option is true, \<open>b[1]\<close> is true and
  the variables are \<open>(2, 1)\<close>.
\<close>

definition ex_short :: assignment where
  "ex_short = (\<lambda>n. if n = 0 then 2 else if n \<in> set [1, 2, 4, 7, 9] then 1 else 0)"

subsection \<open>A solution of the demonstration\<close>

text \<open>
  The variables \<open>v\<close> have the indices 0 to 4 and the option the index 5; the encoder
  gives \<open>b\<close> the indices 6 and 7 and \<open>is_assigned[i][j]\<close> the index \<open>8 + 10 i + j\<close>.
\<close>

definition demo_solution :: assignment where
  "demo_solution =
     (\<lambda>n. if n < 5 then int n else if n \<in> set [5, 6, 8, 19, 30, 41, 52] then 1 else 0)"

section \<open>What the model-building operations do to the model\<close>

lemma Add_fields [simp]:
  "m_variables (Add xs c lits m) = m_variables m"
  "m_constraints (Add xs c lits m) = m_constraints m @ [linear_eq xs c lits]"
  by (simp_all add: Add_def)

lemma AddBoolAnd_fields [simp]:
  "m_variables (AddBoolAnd ls lits m) = m_variables m"
  "m_constraints (AddBoolAnd ls lits m) = m_constraints m @ [bool_and ls lits]"
  by (simp_all add: AddBoolAnd_def)

lemma fold_variables:
  assumes "\<And>x m. m_variables (f x m) = m_variables m"
  shows "m_variables (fold f xs m) = m_variables m"
  using assms by (induction xs arbitrary: m) simp_all

lemma fold_constraints:
  assumes "\<And>x m. m_constraints (f x m) = m_constraints m @ g x"
  shows "m_constraints (fold f xs m) = m_constraints m @ concat (map g xs)"
  using assms by (induction xs arbitrary: m) simp_all

lemma prune_impossible_fields:
  "m_variables (prune_impossible pv ia opt N M m) = m_variables m"
  "m_constraints (prune_impossible pv ia opt N M m) = m_constraints m @ prune_cts pv ia opt N M"
proof -
  show "m_variables (prune_impossible pv ia opt N M m) = m_variables m"
    unfolding prune_impossible_def by (intro fold_variables) simp
  have inner: "m_constraints (fold (\<lambda>j m'. if not_possible pv i (int j)
            then Add [ia ! i ! j] 0 [opt] m' else m') [0..<M] m0) =
      m_constraints m0 @ concat (map (\<lambda>j. if not_possible pv i (int j)
            then [linear_eq [ia ! i ! j] 0 [opt]] else []) [0..<M])" for i m0
    by (rule fold_constraints) simp
  show "m_constraints (prune_impossible pv ia opt N M m) = m_constraints m @ prune_cts pv ia opt N M"
    unfolding prune_impossible_def prune_cts_def by (rule fold_constraints) (rule inner)
qed

lemma one_value_each_fields:
  "m_variables (one_value_each ia opt m) = m_variables m"
  "m_constraints (one_value_each ia opt m) = m_constraints m @ map (\<lambda>row. linear_eq row 1 [opt]) ia"
proof -
  show "m_variables (one_value_each ia opt m) = m_variables m"
    unfolding one_value_each_def by (intro fold_variables) simp
  have "m_constraints (one_value_each ia opt m) =
      m_constraints m @ concat (map (\<lambda>row. [linear_eq row 1 [opt]]) ia)"
    unfolding one_value_each_def by (rule fold_constraints) simp
  then show "m_constraints (one_value_each ia opt m) =
      m_constraints m @ map (\<lambda>row. linear_eq row 1 [opt]) ia"
    by (simp add: concat_map_singleton)
qed

lemma link_variables_fields:
  "m_variables (link_variables vs ia N M m) = m_variables m"
  "m_constraints (link_variables vs ia N M m) = m_constraints m @ link_cts vs ia N M"
proof -
  show "m_variables (link_variables vs ia N M m) = m_variables m"
    unfolding link_variables_def by (intro fold_variables) simp
  have inner: "m_constraints (fold (\<lambda>j. Add [vs ! i] (int j) [ia ! i ! j]) [0..<M] m0) =
      m_constraints m0 @ map (\<lambda>j. linear_eq [vs ! i] (int j) [ia ! i ! j]) [0..<M]" for i m0
  proof -
    have "m_constraints (fold (\<lambda>j. Add [vs ! i] (int j) [ia ! i ! j]) [0..<M] m0) =
      m_constraints m0 @ concat (map (\<lambda>j. [linear_eq [vs ! i] (int j) [ia ! i ! j]]) [0..<M])"
      by (rule fold_constraints) simp
    then show ?thesis by (simp add: concat_map_singleton)
  qed
  show "m_constraints (link_variables vs ia N M m) = m_constraints m @ link_cts vs ia N M"
    unfolding link_variables_def link_cts_def by (rule fold_constraints) (rule inner)
qed

lemma table_constraint_fields:
  "m_variables (table_constraint ts ia b m) = m_variables m"
  "m_constraints (table_constraint ts ia b m) = m_constraints m @ table_cts ts ia b"
proof -
  show "m_variables (table_constraint ts ia b m) = m_variables m"
    unfolding table_constraint_def by (intro fold_variables) (simp add: split_def)
  have "m_constraints (table_constraint ts ia b m) =
      m_constraints m @ concat (map (\<lambda>(k, t). [bool_and (map (\<lambda>j. ia ! j ! nat (t ! j)) [0..<length t]) [b ! k]]) (enumerate 0 ts))"
    unfolding table_constraint_def by (rule fold_constraints) (simp add: split_def)
  then show "m_constraints (table_constraint ts ia b m) = m_constraints m @ table_cts ts ia b"
    by (simp add: table_cts_def split_def concat_map_singleton)
qed

lemma NewBoolVar_eq:
  "NewBoolVar nm m = (v, m1) \<Longrightarrow>
     m_variables m1 = m_variables m @ [v] \<and> m_constraints m1 = m_constraints m \<and>
     var_index v = length (m_variables m) \<and> var_lb v = 0 \<and> var_ub v = 1"
  by (auto simp: NewBoolVar_def NewIntVar_def Let_def)

lemma new_bool_vars_eq:
  "new_bool_vars nms m = (vs, m') \<Longrightarrow>
     m_variables m' = m_variables m @ vs \<and> m_constraints m' = m_constraints m \<and>
     length vs = length nms \<and>
     (\<forall>v \<in> set vs. var_lb v = 0 \<and> var_ub v = 1 \<and> length (m_variables m) \<le> var_index v)"
proof (induction nms arbitrary: m vs m')
  case Nil
  then show ?case by simp
next
  case (Cons nm nms)
  obtain v m1 where v: "NewBoolVar nm m = (v, m1)" by (cases "NewBoolVar nm m")
  obtain vs1 m2 where r: "new_bool_vars nms m1 = (vs1, m2)" by (cases "new_bool_vars nms m1")
  from Cons.prems v r have eq: "vs = v # vs1" "m' = m2" by simp_all
  from NewBoolVar_eq [OF v] Cons.IH [OF r] show ?case
    unfolding eq by auto
qed

lemma new_bool_rows_eq:
  "new_bool_rows rows m = (vss, m') \<Longrightarrow>
     m_variables m' = m_variables m @ concat vss \<and> m_constraints m' = m_constraints m \<and>
     length vss = length rows \<and> (\<forall>i < length rows. length (vss ! i) = length (rows ! i)) \<and>
     (\<forall>v \<in> set (concat vss). var_lb v = 0 \<and> var_ub v = 1 \<and> length (m_variables m) \<le> var_index v)"
proof (induction rows arbitrary: m vss m')
  case Nil
  then show ?case by simp
next
  case (Cons row rows)
  obtain vs m1 where v: "new_bool_vars row m = (vs, m1)" by (cases "new_bool_vars row m")
  obtain vss1 m2 where r: "new_bool_rows rows m1 = (vss1, m2)" by (cases "new_bool_rows rows m1")
  from Cons.prems v r have eq: "vss = vs # vss1" "m' = m2" by simp_all
  note a = new_bool_vars_eq [OF v] and b = Cons.IH [OF r]
  have len: "\<forall>i < length (row # rows). length (vss ! i) = length ((row # rows) ! i)"
    unfolding eq using a b by (auto simp: nth_Cons split: nat.splits)
  have dom: "\<forall>v \<in> set (concat vss). var_lb v = 0 \<and> var_ub v = 1 \<and> length (m_variables m) \<le> var_index v"
    unfolding eq using a b by fastforce
  from a b len dom show ?case unfolding eq by simp
qed

section \<open>The maximum value and the possible values\<close>

lemma fold_max_ge: "(x::int) \<le> fold max xs x \<and> (\<forall>y \<in> set xs. y \<le> fold max xs x)"
proof (induction xs arbitrary: x)
  case Nil
  then show ?case by simp
next
  case (Cons z zs)
  from Cons [of "max z x"] show ?case by auto
qed

lemma py_max_ge: "py_max xs = Some m \<Longrightarrow> x \<in> set xs \<Longrightarrow> x \<le> m"
  using fold_max_ge by (cases xs) auto

lemma maxima_Some:
  "maxima ts = Some ms \<Longrightarrow> length ms = length ts \<and> (\<forall>k < length ts. py_max (ts ! k) = Some (ms ! k))"
proof (induction ts arbitrary: ms)
  case Nil
  then show ?case by simp
next
  case (Cons t ts)
  then show ?case by (auto split: option.splits simp: nth_Cons split: nat.splits)
qed

lemma max_value_ge:
  assumes "max_value ts = Some mv" and "t \<in> set ts" and "x \<in> set t"
  shows "x \<le> mv"
proof -
  from assms(1) obtain ms where ms: "maxima ts = Some ms" and mv: "py_max ms = Some mv"
    by (auto simp: max_value_def split: option.splits)
  from assms(2) obtain k where k: "k < length ts" "ts ! k = t" by (auto simp: in_set_conv_nth)
  from maxima_Some [OF ms] k have 1: "py_max t = Some (ms ! k)" and 2: "ms ! k \<in> set ms" by auto
  from py_max_ge [OF 1 assms(3)] have "x \<le> ms ! k" .
  also from py_max_ge [OF mv 2] have "ms ! k \<le> mv" .
  finally show ?thesis .
qed

lemma maxima_total:
  "\<forall>t \<in> set ts. t \<noteq> [] \<Longrightarrow> \<exists>ms. maxima ts = Some ms"
proof (induction ts)
  case Nil
  then show ?case by simp
next
  case (Cons t ts)
  then obtain ms where ms: "maxima ts = Some ms" by auto
  from Cons.prems obtain x xs where t: "t = x # xs" by (cases t) auto
  show ?case unfolding t by (simp add: ms)
qed

lemma max_value_total:
  assumes "ts \<noteq> []" and "\<forall>t \<in> set ts. t \<noteq> []"
  shows "\<exists>mv. max_value ts = Some mv"
proof -
  from maxima_total [OF assms(2)] obtain ms where ms: "maxima ts = Some ms" ..
  from maxima_Some [OF ms] assms(1) have "ms \<noteq> []" by auto
  then obtain x xs where "ms = x # xs" by (cases ms) auto
  with ms show ?thesis by (simp add: max_value_def)
qed

lemma add_values_enum:
  "add_values pv (enumerate n t) = Some pv' \<Longrightarrow>
     pv' i = map_option (\<lambda>s. if n \<le> i \<and> i < n + length t then insert (t ! (i - n)) s else s) (pv i)"
proof (induction t arbitrary: n pv)
  case Nil
  then show ?case by (cases "pv i") auto
next
  case (Cons x xs)
  from Cons.prems obtain s0 where s0: "pv n = Some s0"
    and r: "add_values (pv(n \<mapsto> insert x s0)) (enumerate (Suc n) xs) = Some pv'"
    by (auto split: option.splits)
  show ?case
  proof (cases "i = n")
    case True
    with Cons.IH [OF r] s0 show ?thesis by simp
  next
    case False
    with Cons.IH [OF r] show ?thesis
      by (cases "pv i") (auto simp: nth_Cons' Suc_diff_Suc)
  qed
qed

lemma add_values_total:
  "\<forall>i. n \<le> i \<and> i < n + length t \<longrightarrow> pv i \<noteq> None \<Longrightarrow> \<exists>pv'. add_values pv (enumerate n t) = Some pv'"
proof (induction t arbitrary: n pv)
  case Nil
  then show ?case by simp
next
  case (Cons x xs)
  from Cons.prems obtain s0 where s0: "pv n = Some s0" by fastforce
  have "\<forall>i. Suc n \<le> i \<and> i < Suc n + length xs \<longrightarrow> (pv(n \<mapsto> insert x s0)) i \<noteq> None"
    using Cons.prems by simp
  from Cons.IH [OF this] obtain q
    where "add_values (pv(n \<mapsto> insert x s0)) (enumerate (Suc n) xs) = Some q" ..
  then have "add_values pv (enumerate n (x # xs)) = Some q" by (simp add: s0)
  then show ?case by blast
qed

lemma add_tuples_eq:
  "add_tuples pv ts = Some pv' \<Longrightarrow>
     pv' i = map_option (\<lambda>s. s \<union> {t ! i | t. t \<in> set ts \<and> i < length t}) (pv i)"
proof (induction ts arbitrary: pv)
  case Nil
  then show ?case by (cases "pv i") simp_all
next
  case (Cons t ts)
  from Cons.prems obtain pv1 where 1: "add_values pv (enumerate 0 t) = Some pv1"
    and r: "add_tuples pv1 ts = Some pv'"
    by (auto split: option.splits)
  have "pv1 i = map_option (\<lambda>s. if i < length t then insert (t ! i) s else s) (pv i)"
    using add_values_enum [OF 1, of i] by (cases "pv i") simp_all
  with Cons.IH [OF r] show ?case
    by (cases "pv i") auto
qed

lemma add_tuples_total:
  "\<forall>t \<in> set ts. \<forall>i < length t. pv i \<noteq> None \<Longrightarrow> \<exists>pv'. add_tuples pv ts = Some pv'"
proof (induction ts arbitrary: pv)
  case Nil
  then show ?case by simp
next
  case (Cons t ts)
  from Cons.prems have "\<forall>i. 0 \<le> i \<and> i < 0 + length t \<longrightarrow> pv i \<noteq> None" by simp
  from add_values_total [OF this] obtain pv1 where 1: "add_values pv (enumerate 0 t) = Some pv1" ..
  have "pv1 i \<noteq> None" if "pv i \<noteq> None" for i
    using add_values_enum [OF 1, of i] that by simp
  with Cons.prems have "\<forall>t \<in> set ts. \<forall>i < length t. pv1 i \<noteq> None" by simp
  from Cons.IH [OF this] show ?case by (simp add: 1)
qed

lemma add_tuples_longer:
  "add_tuples pv ts = Some pv' \<Longrightarrow> t \<in> set ts \<Longrightarrow> i < length t \<Longrightarrow> pv i \<noteq> None"
proof (induction ts arbitrary: pv)
  case Nil
  then show ?case by simp
next
  case (Cons u us)
  from Cons.prems(1) obtain pv1 where 1: "add_values pv (enumerate 0 u) = Some pv1"
    and r: "add_tuples pv1 us = Some pv'"
    by (auto split: option.splits)
  show ?case
  proof (cases "t = u")
    case True
    have "i < length u \<Longrightarrow> add_values pv (enumerate n u) = Some q \<Longrightarrow> pv (n + i) \<noteq> None" for n q
    proof (induction u arbitrary: n pv i q)
      case Nil
      then show ?case by simp
    next
      case (Cons x xs)
      from Cons.prems(2) obtain s0 where s0: "pv n = Some s0"
        and r: "add_values (pv(n \<mapsto> insert x s0)) (enumerate (Suc n) xs) = Some q"
        by (auto split: option.splits)
      show ?case
      proof (cases i)
        case 0
        with s0 show ?thesis by simp
      next
        case (Suc k)
        with Cons.prems(1) have "k < length xs" by simp
        from Cons.IH [OF this r] show ?thesis unfolding Suc by (simp split: if_splits)
      qed
    qed
    from this [of 0 pv1] True Cons.prems(3) 1 show ?thesis by simp
  next
    case False
    with Cons.prems(2) have "t \<in> set us" by simp
    from Cons.IH [OF r this Cons.prems(3)] have "pv1 i \<noteq> None" .
    with add_values_enum [OF 1, of i] show ?thesis by auto
  qed
qed

lemma tuple_not_longer:
  assumes "add_tuples (init_possible_values n) ts = Some pv" and "t \<in> set ts"
  shows "length t \<le> n"
proof (rule ccontr)
  assume "\<not> length t \<le> n"
  then have "n < length t" by simp
  from add_tuples_longer [OF assms this] show False
    by (simp add: init_possible_values_def)
qed

lemma add_tuples_dom:
  "add_tuples (init_possible_values n) ts = Some pv \<Longrightarrow> i < n \<Longrightarrow> pv i \<noteq> None"
  using add_tuples_eq [of "init_possible_values n" ts pv i]
  by (simp add: init_possible_values_def)

section \<open>The assertions on well-typed arguments\<close>

lemma check_variables_vars: "check_variables (map PyIntVar vs) = Some vs"
  by (induction vs) simp_all

lemma check_tuple_ints:
  "check_tuple (map PyInt t) = (if \<forall>x \<in> set t. 0 \<le> x then Some t else None)"
  by (induction t) simp_all

lemma check_tuples_ints:
  "check_tuples (map (\<lambda>t. PySeq (map PyInt t)) ts) =
     (if \<forall>t \<in> set ts. \<forall>x \<in> set t. 0 \<le> x then Some ts else None)"
  by (induction ts) (simp_all add: check_tuple_ints)

lemma check_args_typed:
  "check_args (PyModel m) (py_vars vs) (py_tuples ts) (PyIntVar opt) =
     (if vs \<noteq> [] \<and> ts \<noteq> [] \<and> (\<forall>t \<in> set ts. \<forall>x \<in> set t. 0 \<le> x) \<and> length vs = length (ts ! 0)
      then Some (m, vs, ts, opt) else None)"
  by (simp add: check_args_def py_vars_def py_tuples_def check_variables_vars check_tuples_ints)

lemma check_args_option:
  assumes "valid_input vs ts"
  shows "check_args (PyModel m) (py_vars vs) (py_tuples ts) option =
     (case option of PyIntVar opt \<Rightarrow> Some (m, vs, ts, opt) | _ \<Rightarrow> None)"
proof -
  from assms have ne: "vs \<noteq> []" "ts \<noteq> []"
    and len: "\<forall>t \<in> set ts. length t = length vs"
    and pos: "\<forall>t \<in> set ts. \<forall>x \<in> set t. 0 \<le> x"
    by (simp_all add: valid_input_def)
  from ne(2) len have l0: "length vs = length (ts ! 0)" by (cases ts) simp_all
  with ne(1) have "ts ! 0 \<noteq> []" by auto
  with l0 ne pos show ?thesis
    by (cases option)
      (simp_all add: check_args_def py_vars_def py_tuples_def check_variables_vars
        check_tuples_ints)
qed

lemma check_tuple_negative:
  "PyInt x \<in> set t \<Longrightarrow> x < 0 \<Longrightarrow> check_tuple t = None"
proof (induction t rule: check_tuple.induct)
qed auto

lemma check_tuples_negative:
  "PySeq t \<in> set ts \<Longrightarrow> PyInt x \<in> set t \<Longrightarrow> x < 0 \<Longrightarrow> check_tuples ts = None"
proof (induction ts rule: check_tuples.induct)
  case 1
  then show ?case by simp
next
  case (2 u r)
  then show ?case by (auto simp: check_tuple_negative split: option.splits)
qed auto

lemma table_optional_typed:
  "table_optional (PyModel m) (py_vars vs) (py_tuples ts) (PyIntVar opt) =
     (if vs \<noteq> [] \<and> ts \<noteq> [] \<and> (\<forall>t \<in> set ts. \<forall>x \<in> set t. 0 \<le> x) \<and> length vs = length (ts ! 0)
      then (case table_optional_body m vs ts opt of
              Inl (e, m1) \<Rightarrow> Inl (e, PyModel m1)
            | Inr (b, ia, m') \<Rightarrow> Inr m')
      else Inl (AssertionError, PyModel m))"
  by (simp add: table_optional_def check_args_typed)

section \<open>The model that table\_optional returns\<close>

lemma table_optional_body_Inr:
  assumes "table_optional_body m vs ts opt = Inr (b, ia, m')"
  obtains mv pv where
    "max_value ts = Some mv"
    "add_tuples (init_possible_values (length vs)) ts = Some pv"
    "length b = length ts"
    "length ia = length vs"
    "\<forall>i < length vs. length (ia ! i) = nat (mv + 1)"
    "\<forall>v \<in> set (b @ concat ia). var_lb v = 0 \<and> var_ub v = 1 \<and> length (m_variables m) \<le> var_index v"
    "m_variables m' = m_variables m @ b @ concat ia"
    "m_constraints m' = m_constraints m @
       prune_cts pv ia opt (length vs) (nat (mv + 1)) @
       map (\<lambda>row. linear_eq row 1 [opt]) ia @
       link_cts vs ia (length vs) (nat (mv + 1)) @
       table_cts ts ia b @ [linear_eq b 1 [opt]]"
proof -
  obtain b0 m1 where b0: "new_bool_vars (map b_name [0..<length ts]) m = (b0, m1)"
    by (cases "new_bool_vars (map b_name [0..<length ts]) m")
  from assms b0 obtain mv where mv: "max_value ts = Some mv"
    by (auto simp: table_optional_body_def split: option.splits)
  from assms b0 mv obtain pv where pv: "add_tuples (init_possible_values (length vs)) ts = Some pv"
    by (auto simp: table_optional_body_def split: option.splits)
  obtain ia0 m2 where ia0: "new_bool_rows
      (map (\<lambda>i. map (is_assigned_name i) [0..<nat (mv + 1)]) [0..<length vs]) m1 = (ia0, m2)"
    by (cases "new_bool_rows
      (map (\<lambda>i. map (is_assigned_name i) [0..<nat (mv + 1)]) [0..<length vs]) m1")
  from assms have eq: "b = b0" "ia = ia0"
    "m' = Add b 1 [opt] (table_constraint ts ia b (link_variables vs ia (length vs) (nat (mv + 1))
       (one_value_each ia opt (prune_impossible pv ia opt (length vs) (nat (mv + 1)) m2))))"
    by (auto simp: table_optional_body_def b0 mv pv ia0)
  note B = new_bool_vars_eq [OF b0] and R = new_bool_rows_eq [OF ia0]
  have 3: "length b = length ts" using B by (simp add: eq)
  have 4: "length ia = length vs" using R by (simp add: eq)
  have 5: "\<forall>i < length vs. length (ia ! i) = nat (mv + 1)" using R by (simp add: eq)
  have 6: "\<forall>v \<in> set (b @ concat ia).
      var_lb v = 0 \<and> var_ub v = 1 \<and> length (m_variables m) \<le> var_index v"
    using B R unfolding eq by fastforce
  have 7: "m_variables m' = m_variables m @ b @ concat ia"
    using B R by (simp add: eq(3) prune_impossible_fields one_value_each_fields
        link_variables_fields table_constraint_fields) (simp add: eq)
  have 8: "m_constraints m' = m_constraints m @
       prune_cts pv ia opt (length vs) (nat (mv + 1)) @
       map (\<lambda>row. linear_eq row 1 [opt]) ia @
       link_cts vs ia (length vs) (nat (mv + 1)) @
       table_cts ts ia b @ [linear_eq b 1 [opt]]"
    using B R by (simp add: eq(3) prune_impossible_fields one_value_each_fields
        link_variables_fields table_constraint_fields)
  from mv pv 3 4 5 6 7 8 show thesis by (rule that)
qed

lemma table_optional_body_total:
  assumes "ts \<noteq> []" and "\<forall>t \<in> set ts. t \<noteq> [] \<and> length t \<le> length vs"
  shows "\<exists>b ia m'. table_optional_body m vs ts opt = Inr (b, ia, m')"
proof -
  from assms max_value_total [of ts] obtain mv where mv: "max_value ts = Some mv" by auto
  have "\<forall>t \<in> set ts. \<forall>i < length t. init_possible_values (length vs) i \<noteq> None"
    using assms(2) by (fastforce simp: init_possible_values_def)
  from add_tuples_total [OF this] obtain pv
    where pv: "add_tuples (init_possible_values (length vs)) ts = Some pv" ..
  show ?thesis
    by (simp add: table_optional_body_def mv pv split: prod.splits)
qed

lemma valid_call:
  assumes "valid_input vs ts"
  shows "\<exists>b ia m'. table_optional_body m vs ts opt = Inr (b, ia, m') \<and>
           table_optional (PyModel m) (py_vars vs) (py_tuples ts) (PyIntVar opt) = Inr m'"
proof -
  from assms have ne: "vs \<noteq> []" "ts \<noteq> []"
    and len: "\<forall>t \<in> set ts. length t = length vs"
    and pos: "\<forall>t \<in> set ts. \<forall>x \<in> set t. 0 \<le> x"
    by (simp_all add: valid_input_def)
  from ne len have "\<forall>t \<in> set ts. t \<noteq> [] \<and> length t \<le> length vs" by auto
  from table_optional_body_total [OF ne(2) this] obtain b ia m'
    where body: "table_optional_body m vs ts opt = Inr (b, ia, m')" by blast
  from ne(2) len have "length vs = length (ts ! 0)" by (cases ts) simp_all
  with ne pos body have "table_optional (PyModel m) (py_vars vs) (py_tuples ts) (PyIntVar opt) = Inr m'"
    by (simp add: table_optional_typed)
  with body show ?thesis by blast
qed

section \<open>What a solution of the emitted constraints satisfies\<close>

lemma ct_holds_linear_eq:
  "ct_holds a (linear_eq xs c [l]) =
     (a (var_index l) = 1 \<longrightarrow> sum_list (map (\<lambda>v. a (var_index v)) xs) = c)"
  by (simp add: ct_holds_def linear_eq_def comp_def)

lemma ct_holds_bool_and:
  "ct_holds a (bool_and ls [l]) =
     (a (var_index l) = 1 \<longrightarrow> (\<forall>v \<in> set ls. a (var_index v) = 1))"
  by (simp add: ct_holds_def bool_and_def list_all_iff)

lemma prune_cts_mem:
  "i < N \<Longrightarrow> j < M \<Longrightarrow> not_possible pv i (int j) \<Longrightarrow>
     linear_eq [ia ! i ! j] 0 [opt] \<in> set (prune_cts pv ia opt N M)"
  by (force simp: prune_cts_def)

lemma link_cts_mem:
  "i < N \<Longrightarrow> j < M \<Longrightarrow> linear_eq [vs ! i] (int j) [ia ! i ! j] \<in> set (link_cts vs ia N M)"
  by (force simp: link_cts_def)

lemma table_cts_mem:
  "k < length ts \<Longrightarrow>
     bool_and (map (\<lambda>j. ia ! j ! nat (ts ! k ! j)) [0..<length (ts ! k)]) [b ! k]
       \<in> set (table_cts ts ia b)"
  unfolding table_cts_def set_map
  by (rule image_eqI [of _ _ "(k, ts ! k)"]) (simp_all add: in_set_enumerate_eq)

lemma emitted_facts:
  assumes body: "table_optional_body m vs ts opt = Inr (b, ia, m')"
    and sat: "emitted_sat a m m'"
  obtains mv pv where
    "max_value ts = Some mv"
    "add_tuples (init_possible_values (length vs)) ts = Some pv"
    "length b = length ts"
    "length ia = length vs"
    "\<forall>i < length vs. length (ia ! i) = nat (mv + 1)"
    "\<forall>v \<in> set (b @ concat ia). a (var_index v) = 0 \<or> a (var_index v) = 1"
    "a (var_index opt) = 1 \<longrightarrow> (\<forall>i < length vs. \<forall>j < nat (mv + 1).
        not_possible pv i (int j) \<longrightarrow> a (var_index (ia ! i ! j)) = 0)"
    "a (var_index opt) = 1 \<longrightarrow>
       (\<forall>i < length vs. sum_list (map (\<lambda>v. a (var_index v)) (ia ! i)) = 1)"
    "\<forall>i < length vs. \<forall>j < nat (mv + 1).
        a (var_index (ia ! i ! j)) = 1 \<longrightarrow> a (var_index (vs ! i)) = int j"
    "\<forall>k < length ts. a (var_index (b ! k)) = 1 \<longrightarrow>
        (\<forall>j < length (ts ! k). a (var_index (ia ! j ! nat (ts ! k ! j))) = 1)"
    "a (var_index opt) = 1 \<longrightarrow> sum_list (map (\<lambda>v. a (var_index v)) b) = 1"
proof -
  from body obtain mv pv where mv: "max_value ts = Some mv"
    and pv: "add_tuples (init_possible_values (length vs)) ts = Some pv"
    and lb: "length b = length ts"
    and lia: "length ia = length vs"
    and lrow: "\<forall>i < length vs. length (ia ! i) = nat (mv + 1)"
    and bool: "\<forall>v \<in> set (b @ concat ia).
        var_lb v = 0 \<and> var_ub v = 1 \<and> length (m_variables m) \<le> var_index v"
    and vars: "m_variables m' = m_variables m @ b @ concat ia"
    and cts: "m_constraints m' = m_constraints m @
       prune_cts pv ia opt (length vs) (nat (mv + 1)) @
       map (\<lambda>row. linear_eq row 1 [opt]) ia @
       link_cts vs ia (length vs) (nat (mv + 1)) @
       table_cts ts ia b @ [linear_eq b 1 [opt]]"
    by (rule table_optional_body_Inr)
  from sat have dom: "\<forall>v \<in> set (b @ concat ia). in_domain a v"
    by (simp add: emitted_sat_def vars list_all_iff)
  from sat have
    prune: "\<forall>c \<in> set (prune_cts pv ia opt (length vs) (nat (mv + 1))). ct_holds a c"
    and one: "\<forall>row \<in> set ia. ct_holds a (linear_eq row 1 [opt])"
    and link: "\<forall>c \<in> set (link_cts vs ia (length vs) (nat (mv + 1))). ct_holds a c"
    and table: "\<forall>c \<in> set (table_cts ts ia b). ct_holds a c"
    and sumb: "ct_holds a (linear_eq b 1 [opt])"
    by (simp_all add: emitted_sat_def cts list_all_iff)
  have 6: "\<forall>v \<in> set (b @ concat ia). a (var_index v) = 0 \<or> a (var_index v) = 1"
  proof
    fix v assume v: "v \<in> set (b @ concat ia)"
    with dom bool have "0 \<le> a (var_index v)" "a (var_index v) \<le> 1"
      by (auto simp: in_domain_def)
    then show "a (var_index v) = 0 \<or> a (var_index v) = 1" by arith
  qed
  have 7: "a (var_index opt) = 1 \<longrightarrow> (\<forall>i < length vs. \<forall>j < nat (mv + 1).
        not_possible pv i (int j) \<longrightarrow> a (var_index (ia ! i ! j)) = 0)"
  proof (intro impI allI)
    fix i j
    assume o: "a (var_index opt) = 1" and "i < length vs" "j < nat (mv + 1)"
      "not_possible pv i (int j)"
    then have "linear_eq [ia ! i ! j] 0 [opt] \<in> set (prune_cts pv ia opt (length vs) (nat (mv + 1)))"
      by (rule_tac prune_cts_mem)
    with prune have "ct_holds a (linear_eq [ia ! i ! j] 0 [opt])" by blast
    with o show "a (var_index (ia ! i ! j)) = 0" by (simp add: ct_holds_linear_eq)
  qed
  have 8: "a (var_index opt) = 1 \<longrightarrow>
       (\<forall>i < length vs. sum_list (map (\<lambda>v. a (var_index v)) (ia ! i)) = 1)"
  proof (intro impI allI)
    fix i
    assume o: "a (var_index opt) = 1" and "i < length vs"
    with lia have "ia ! i \<in> set ia" by simp
    with one have "ct_holds a (linear_eq (ia ! i) 1 [opt])" by blast
    with o show "sum_list (map (\<lambda>v. a (var_index v)) (ia ! i)) = 1"
      by (simp add: ct_holds_linear_eq)
  qed
  have 9: "\<forall>i < length vs. \<forall>j < nat (mv + 1).
        a (var_index (ia ! i ! j)) = 1 \<longrightarrow> a (var_index (vs ! i)) = int j"
  proof (intro impI allI)
    fix i j
    assume "i < length vs" "j < nat (mv + 1)" and t: "a (var_index (ia ! i ! j)) = 1"
    then have "linear_eq [vs ! i] (int j) [ia ! i ! j] \<in> set (link_cts vs ia (length vs) (nat (mv + 1)))"
      by (rule_tac link_cts_mem)
    with link have "ct_holds a (linear_eq [vs ! i] (int j) [ia ! i ! j])" by blast
    with t show "a (var_index (vs ! i)) = int j" by (simp add: ct_holds_linear_eq)
  qed
  have 10: "\<forall>k < length ts. a (var_index (b ! k)) = 1 \<longrightarrow>
        (\<forall>j < length (ts ! k). a (var_index (ia ! j ! nat (ts ! k ! j))) = 1)"
  proof (intro impI allI)
    fix k j
    assume k: "k < length ts" and t: "a (var_index (b ! k)) = 1" and j: "j < length (ts ! k)"
    from table table_cts_mem [OF k] have "ct_holds a
        (bool_and (map (\<lambda>j. ia ! j ! nat (ts ! k ! j)) [0..<length (ts ! k)]) [b ! k])"
      by blast
    with t j show "a (var_index (ia ! j ! nat (ts ! k ! j))) = 1"
      by (simp add: ct_holds_bool_and)
  qed
  have 11: "a (var_index opt) = 1 \<longrightarrow> sum_list (map (\<lambda>v. a (var_index v)) b) = 1"
    using sumb by (simp add: ct_holds_linear_eq)
  from mv pv lb lia lrow 6 7 8 9 10 11 show thesis by (rule that)
qed

lemma sum_bools_nonneg:
  "\<forall>x \<in> set xs. f x = 0 \<or> f x = (1::int) \<Longrightarrow> 0 \<le> sum_list (map f xs)"
  by (induction xs) auto

lemma sum_bools_zero:
  "\<forall>x \<in> set xs. f x = 0 \<or> f x = (1::int) \<Longrightarrow> sum_list (map f xs) = 0 \<Longrightarrow> \<forall>x \<in> set xs. f x = 0"
proof (induction xs)
  case Nil
  then show ?case by simp
next
  case (Cons x xs)
  from Cons.prems(1) have "0 \<le> sum_list (map f xs)" by (simp add: sum_bools_nonneg)
  with Cons.prems have "f x = 0" "sum_list (map f xs) = 0" by auto
  with Cons show ?case by simp
qed

lemma sum_bools_one:
  "\<forall>x \<in> set xs. f x = 0 \<or> f x = (1::int) \<Longrightarrow> sum_list (map f xs) = 1 \<Longrightarrow>
     \<exists>k < length xs. f (xs ! k) = 1 \<and> (\<forall>k' < length xs. f (xs ! k') = 1 \<longrightarrow> k' = k)"
proof (induction xs)
  case Nil
  then show ?case by simp
next
  case (Cons x xs)
  from Cons.prems(1) have bools: "\<forall>y \<in> set xs. f y = 0 \<or> f y = 1" by simp
  show ?case
  proof (cases "f x = 1")
    case True
    with Cons.prems(2) have "sum_list (map f xs) = 0" by simp
    from sum_bools_zero [OF bools this] have zero: "\<forall>y \<in> set xs. f y = 0" .
    have "\<forall>k' < length (x # xs). f ((x # xs) ! k') = 1 \<longrightarrow> k' = 0"
    proof (intro allI impI)
      fix k' assume "k' < length (x # xs)" "f ((x # xs) ! k') = 1"
      with zero show "k' = 0" by (cases k') auto
    qed
    with True show ?thesis by (intro exI [of _ 0]) simp
  next
    case False
    with Cons.prems have x: "f x = 0" and "sum_list (map f xs) = 1" by auto
    from Cons.IH [OF bools this(2)] obtain k where k: "k < length xs" "f (xs ! k) = 1"
      and u: "\<forall>k' < length xs. f (xs ! k') = 1 \<longrightarrow> k' = k" by blast
    have "\<forall>k' < length (x # xs). f ((x # xs) ! k') = 1 \<longrightarrow> k' = Suc k"
    proof (intro allI impI)
      fix k' assume "k' < length (x # xs)" "f ((x # xs) ! k') = 1"
      with x u show "k' = Suc k" by (cases k') auto
    qed
    with k show ?thesis by (intro exI [of _ "Suc k"]) simp
  qed
qed

lemma selected_tuple:
  assumes body: "table_optional_body m vs ts opt = Inr (b, ia, m')"
    and sat: "emitted_sat a m m'"
    and on: "a (var_index opt) = 1"
    and pos: "\<forall>t \<in> set ts. \<forall>x \<in> set t. 0 \<le> x"
    and len: "\<forall>t \<in> set ts. length t \<le> length vs"
  obtains k where "k < length ts" "a (var_index (b ! k)) = 1"
    "\<forall>k' < length ts. a (var_index (b ! k')) = 1 \<longrightarrow> k' = k"
    "\<forall>i < length (ts ! k). a (var_index (ia ! i ! nat (ts ! k ! i))) = 1 \<and>
        a (var_index (vs ! i)) = ts ! k ! i"
proof -
  from body sat obtain mv pv where mv: "max_value ts = Some mv"
    and lb: "length b = length ts"
    and bool: "\<forall>v \<in> set (b @ concat ia). a (var_index v) = 0 \<or> a (var_index v) = 1"
    and link: "\<forall>i < length vs. \<forall>j < nat (mv + 1).
        a (var_index (ia ! i ! j)) = 1 \<longrightarrow> a (var_index (vs ! i)) = int j"
    and table: "\<forall>k < length ts. a (var_index (b ! k)) = 1 \<longrightarrow>
        (\<forall>j < length (ts ! k). a (var_index (ia ! j ! nat (ts ! k ! j))) = 1)"
    and sumb: "a (var_index opt) = 1 \<longrightarrow> sum_list (map (\<lambda>v. a (var_index v)) b) = 1"
    by (rule emitted_facts)
  from bool have "\<forall>v \<in> set b. a (var_index v) = 0 \<or> a (var_index v) = 1" by simp
  from sum_bools_one [OF this] sumb on lb obtain k where k: "k < length ts"
    and bk: "a (var_index (b ! k)) = 1"
    and uniq: "\<forall>k' < length ts. a (var_index (b ! k')) = 1 \<longrightarrow> k' = k"
    by auto
  have "\<forall>i < length (ts ! k). a (var_index (ia ! i ! nat (ts ! k ! i))) = 1 \<and>
        a (var_index (vs ! i)) = ts ! k ! i"
  proof (intro allI impI)
    fix i assume i: "i < length (ts ! k)"
    from k have tk: "ts ! k \<in> set ts" by simp
    with i have x: "ts ! k ! i \<in> set (ts ! k)" by simp
    from tk x pos have 0: "0 \<le> ts ! k ! i" by blast
    from max_value_ge [OF mv tk x] have "ts ! k ! i \<le> mv" .
    with 0 have j: "nat (ts ! k ! i) < nat (mv + 1)" by simp
    from len tk i have iN: "i < length vs" by fastforce
    from table k bk i have 1: "a (var_index (ia ! i ! nat (ts ! k ! i))) = 1" by blast
    with link iN j have "a (var_index (vs ! i)) = int (nat (ts ! k ! i))" by blast
    with 0 1 show "a (var_index (ia ! i ! nat (ts ! k ! i))) = 1 \<and>
        a (var_index (vs ! i)) = ts ! k ! i" by simp
  qed
  with k bk uniq show thesis by (rule that)
qed

lemma enforced_off: "enforcement_literal c = [l] \<Longrightarrow> a l \<noteq> 1 \<Longrightarrow> ct_holds a c"
  by (simp add: ct_holds_def)

lemma prune_cts_enf:
  "c \<in> set (prune_cts pv ia opt N M) \<Longrightarrow> enforcement_literal c = [var_index opt]"
  by (auto simp: prune_cts_def linear_eq_def split: if_splits)

lemma link_cts_enf:
  "c \<in> set (link_cts vs ia N M) \<Longrightarrow>
     \<exists>i < N. \<exists>j < M. enforcement_literal c = [var_index (ia ! i ! j)]"
  by (auto simp: link_cts_def linear_eq_def) blast

lemma table_cts_enf:
  "c \<in> set (table_cts ts ia b) \<Longrightarrow> \<exists>k < length ts. enforcement_literal c = [var_index (b ! k)]"
  by (auto simp: table_cts_def bool_and_def in_set_enumerate_eq)

lemma nth_nth_concat: "i < length xss \<Longrightarrow> j < length (xss ! i) \<Longrightarrow> xss ! i ! j \<in> set (concat xss)"
  by (auto intro!: bexI [of _ "xss ! i"])

lemma not_possible_absent:
  assumes "add_tuples (init_possible_values n) ts = Some pv" and "i < n"
    and "\<forall>t \<in> set ts. t ! i \<noteq> j"
  shows "not_possible pv i j"
proof -
  from add_tuples_eq [OF assms(1), of i] assms(2)
  have "pv i = Some ({} \<union> {t ! i | t. t \<in> set ts \<and> i < length t})"
    by (simp add: init_possible_values_def)
  with assms(3) show ?thesis by (auto simp: not_possible_def)
qed

lemma table_optional_Inr_body:
  assumes "table_optional (PyModel m) (py_vars vs) (py_tuples ts) (PyIntVar opt) = Inr m'"
  shows "\<exists>b ia. table_optional_body m vs ts opt = Inr (b, ia, m')"
proof (cases "table_optional_body m vs ts opt")
  case (Inl e)
  with assms show ?thesis by (simp add: table_optional_typed split: if_splits prod.splits)
next
  case (Inr r)
  with assms show ?thesis
    by (cases r) (auto simp: table_optional_typed split: if_splits)
qed

section \<open>Evaluating concrete instances\<close>

text \<open>The definitions the simplifier unfolds to run the encoder on a concrete input.\<close>

lemmas model_eval = table_optional_body_def
  max_value_def init_possible_values_def NewBoolVar_def NewIntVar_def Let_def
  prune_impossible_def one_value_each_def link_variables_def table_constraint_def
  Add_def AddBoolAnd_def linear_eq_def bool_and_def not_possible_def
  emitted_sat_def in_domain_def ct_holds_def eval_nat_numeral

lemmas ex_eval = ex_model_def ex_x_def ex_y_def ex_o_def ex_tuples_def

lemma valid_ex: "valid_input [ex_x, ex_y] ex_tuples"
  by (simp add: valid_input_def ex_tuples_def)

section \<open>The demonstration\<close>

lemma new_int_vars_length: "new_int_vars l u nms m = (vs, m') \<Longrightarrow> length vs = length nms"
proof (induction nms arbitrary: m vs m')
  case Nil
  then show ?case by simp
next
  case (Cons nm nms)
  obtain v m1 where v: "NewIntVar l u nm m = (v, m1)" by (cases "NewIntVar l u nm m")
  obtain vs1 m2 where r: "new_int_vars l u nms m1 = (vs1, m2)" by (cases "new_int_vars l u nms m1")
  from Cons.prems v r have "vs = v # vs1" by simp
  with Cons.IH [OF r] show ?case by simp
qed

lemma list_all_drop: "list_all P xs \<Longrightarrow> list_all P (drop n xs)"
  by (auto simp: list_all_iff dest: in_set_dropD)

lemma demo_eq:
  obtains v b m2 m3 bb ia where
    "demo = Inr (v, b, Add [b] 1 [] (Minimize v m3))"
    "length v = 5"
    "table_optional_body m2 v [[0, 1, 2, 3, 4], [5, 6, 7, 8, 9]] b = Inr (bb, ia, m3)"
proof -
  obtain v m1 where nv: "new_int_vars 0 10 (map v_name [0..<5]) CpModel = (v, m1)"
    by (cases "new_int_vars 0 10 (map v_name [0..<5]) CpModel")
  obtain b m2 where nb: "NewBoolVar ''b'' m1 = (b, m2)" by (cases "NewBoolVar ''b'' m1")
  from new_int_vars_length [OF nv] have lv: "length v = 5" by simp
  then have "valid_input v [[0, 1, 2, 3, 4], [5, 6, 7, 8, 9]]"
    by (auto simp: valid_input_def)
  from valid_call [OF this, of m2 b] obtain bb ia m3
    where body: "table_optional_body m2 v [[0, 1, 2, 3, 4], [5, 6, 7, 8, 9]] b = Inr (bb, ia, m3)"
      and call: "table_optional (PyModel m2) (py_vars v)
        (py_tuples [[0, 1, 2, 3, 4], [5, 6, 7, 8, 9]]) (PyIntVar b) = Inr m3"
    by blast
  have "demo = Inr (v, b, Add [b] 1 [] (Minimize v m3))"
    by (simp add: demo_def nv nb call)
  from this lv body show thesis by (rule that)
qed

lemma demo_solution_ok:
  "case demo of
     Inl e \<Rightarrow> False
   | Inr (v, b, m) \<Rightarrow>
       satisfies demo_solution m \<and>
       map (\<lambda>x. demo_solution (var_index x)) v = [0, 1, 2, 3, 4] \<and>
       objective_value demo_solution m = 10"
  by (simp add: model_eval demo_def CpModel_def table_optional_typed satisfies_def
      demo_solution_def Minimize_def objective_value_def)

section \<open>The properties of the encoder\<close>

text \<open>
  C1. For every valid input, every assignment that satisfies what \<open>table_optional\<close>
  emitted and makes the option true gives the variables, position by position, the
  values of one of the tuples.
\<close>

theorem table_when_option_true:
  assumes "valid_input vs ts"
  shows "\<exists>m'. table_optional (PyModel m) (py_vars vs) (py_tuples ts) (PyIntVar opt) = Inr m' \<and>
     (\<forall>a. emitted_sat a m m' \<and> a (var_index opt) = 1 \<longrightarrow>
        map (\<lambda>v. a (var_index v)) vs \<in> set ts)"
proof -
  from valid_call [OF assms] obtain b ia m'
    where body: "table_optional_body m vs ts opt = Inr (b, ia, m')"
      and call: "table_optional (PyModel m) (py_vars vs) (py_tuples ts) (PyIntVar opt) = Inr m'"
    by blast
  from assms have len: "\<forall>t \<in> set ts. length t = length vs"
    and pos: "\<forall>t \<in> set ts. \<forall>x \<in> set t. 0 \<le> x"
    by (simp_all add: valid_input_def)
  have "map (\<lambda>v. a (var_index v)) vs \<in> set ts"
    if sat: "emitted_sat a m m'" and on: "a (var_index opt) = 1" for a
  proof -
    from len have "\<forall>t \<in> set ts. length t \<le> length vs" by simp
    with body sat on pos obtain k where k: "k < length ts"
      and eq: "\<forall>i < length (ts ! k). a (var_index (ia ! i ! nat (ts ! k ! i))) = 1 \<and>
        a (var_index (vs ! i)) = ts ! k ! i"
      by (rule selected_tuple)
    from k len have l: "length (ts ! k) = length vs" by simp
    with eq have "map (\<lambda>v. a (var_index v)) vs = ts ! k"
      by (intro nth_equalityI) simp_all
    with k show ?thesis by simp
  qed
  then have "\<forall>a. emitted_sat a m m' \<and> a (var_index opt) = 1 \<longrightarrow>
        map (\<lambda>v. a (var_index v)) vs \<in> set ts"
    by simp
  with call show ?thesis by (intro exI conjI)
qed

theorem table_when_option_true_witness:
  "valid_input [ex_x, ex_y] ex_tuples \<and>
   (\<exists>m'. table_optional (PyModel ex_model) (py_vars [ex_x, ex_y]) (py_tuples ex_tuples)
            (PyIntVar ex_o) = Inr m' \<and>
      emitted_sat ex_on ex_model m' \<and> ex_on (var_index ex_o) = 1 \<and>
      map (\<lambda>v. ex_on (var_index v)) [ex_x, ex_y] \<in> set ex_tuples)"
proof -
  from table_when_option_true [OF valid_ex, of ex_model ex_o] obtain m'
    where call: "table_optional (PyModel ex_model) (py_vars [ex_x, ex_y]) (py_tuples ex_tuples)
            (PyIntVar ex_o) = Inr m'"
      and tab: "\<forall>a. emitted_sat a ex_model m' \<and> a (var_index ex_o) = 1 \<longrightarrow>
        map (\<lambda>v. a (var_index v)) [ex_x, ex_y] \<in> set ex_tuples"
    by blast
  have "case table_optional (PyModel ex_model) (py_vars [ex_x, ex_y]) (py_tuples ex_tuples)
            (PyIntVar ex_o) of
          Inl e \<Rightarrow> False
        | Inr m' \<Rightarrow> emitted_sat ex_on ex_model m'"
    by (simp add: table_optional_typed model_eval ex_eval ex_on_def)
  with call have sat: "emitted_sat ex_on ex_model m'" by simp
  have on: "ex_on (var_index ex_o) = 1" by (simp add: ex_on_def ex_o_def)
  from tab sat on have "map (\<lambda>v. ex_on (var_index v)) [ex_x, ex_y] \<in> set ex_tuples" by blast
  with valid_ex call sat on show ?thesis by blast
qed

text \<open>
  C2. For every valid input whose variables and option belong to the model, the call
  returns, and with the option false every assignment of the model's variables (a tuple
  or not) extends to the auxiliary Booleans so that everything emitted holds: the
  emitted constraints are satisfiable and leave the variables free.
\<close>

theorem option_false_unrestricted:
  assumes "valid_input vs ts"
    and "\<forall>v \<in> set vs. var_index v < length (m_variables m)"
    and "var_index opt < length (m_variables m)"
  shows "\<exists>m'. table_optional (PyModel m) (py_vars vs) (py_tuples ts) (PyIntVar opt) = Inr m' \<and>
     (\<forall>a. a (var_index opt) = 0 \<longrightarrow>
        (\<exists>a'. (\<forall>n < length (m_variables m). a' n = a n) \<and>
           map (\<lambda>v. a' (var_index v)) vs = map (\<lambda>v. a (var_index v)) vs \<and>
           a' (var_index opt) = 0 \<and> emitted_sat a' m m'))"
proof -
  from valid_call [OF assms(1)] obtain b ia m'
    where body: "table_optional_body m vs ts opt = Inr (b, ia, m')"
      and call: "table_optional (PyModel m) (py_vars vs) (py_tuples ts) (PyIntVar opt) = Inr m'"
    by blast
  from body obtain mv pv where
        lb: "length b = length ts"
    and lia: "length ia = length vs"
    and lrow: "\<forall>i < length vs. length (ia ! i) = nat (mv + 1)"
    and bool: "\<forall>v \<in> set (b @ concat ia).
        var_lb v = 0 \<and> var_ub v = 1 \<and> length (m_variables m) \<le> var_index v"
    and vars: "m_variables m' = m_variables m @ b @ concat ia"
    and cts: "m_constraints m' = m_constraints m @
       prune_cts pv ia opt (length vs) (nat (mv + 1)) @
       map (\<lambda>row. linear_eq row 1 [opt]) ia @
       link_cts vs ia (length vs) (nat (mv + 1)) @
       table_cts ts ia b @ [linear_eq b 1 [opt]]"
    by (rule table_optional_body_Inr)
  have "\<exists>a'. (\<forall>n < length (m_variables m). a' n = a n) \<and>
           map (\<lambda>v. a' (var_index v)) vs = map (\<lambda>v. a (var_index v)) vs \<and>
           a' (var_index opt) = 0 \<and> emitted_sat a' m m'"
    if off: "a (var_index opt) = 0" for a
  proof -
    define a' where "a' = (\<lambda>n. if n < length (m_variables m) then a n else 0)"
    have old: "\<forall>n < length (m_variables m). a' n = a n" by (simp add: a'_def)
    with assms(2) have same: "map (\<lambda>v. a' (var_index v)) vs = map (\<lambda>v. a (var_index v)) vs"
      by simp
    from old assms(3) off have off': "a' (var_index opt) = 0" by simp
    have aux: "a' (var_index v) = 0" if "v \<in> set (b @ concat ia)" for v
    proof -
      from bool that have "length (m_variables m) \<le> var_index v" by blast
      then show ?thesis by (simp add: a'_def)
    qed
    have dom: "\<forall>v \<in> set (b @ concat ia). in_domain a' v"
      using bool aux by (auto simp: in_domain_def)
    have 1: "\<forall>c \<in> set (prune_cts pv ia opt (length vs) (nat (mv + 1))). ct_holds a' c"
      using off' by (auto dest!: prune_cts_enf intro: enforced_off)
    have 2: "\<forall>row \<in> set ia. ct_holds a' (linear_eq row 1 [opt])"
      using off' by (simp add: ct_holds_linear_eq)
    have 3: "\<forall>c \<in> set (link_cts vs ia (length vs) (nat (mv + 1))). ct_holds a' c"
    proof
      fix c assume "c \<in> set (link_cts vs ia (length vs) (nat (mv + 1)))"
      from link_cts_enf [OF this] obtain i j where i: "i < length vs" and j: "j < nat (mv + 1)"
        and e: "enforcement_literal c = [var_index (ia ! i ! j)]" by blast
      from i j lia lrow have "ia ! i ! j \<in> set (concat ia)" by (intro nth_nth_concat) simp_all
      then have "a' (var_index (ia ! i ! j)) = 0" by (intro aux) simp
      with e show "ct_holds a' c" by (intro enforced_off [OF e]) simp
    qed
    have 4: "\<forall>c \<in> set (table_cts ts ia b). ct_holds a' c"
    proof
      fix c assume "c \<in> set (table_cts ts ia b)"
      from table_cts_enf [OF this] obtain k where k: "k < length ts"
        and e: "enforcement_literal c = [var_index (b ! k)]" by blast
      from k lb have "b ! k \<in> set b" by simp
      then have "a' (var_index (b ! k)) = 0" by (intro aux) simp
      then show "ct_holds a' c" by (intro enforced_off [OF e]) simp
    qed
    have 5: "ct_holds a' (linear_eq b 1 [opt])"
      using off' by (simp add: ct_holds_linear_eq)
    from dom 1 2 3 4 5 have "emitted_sat a' m m'"
      by (simp add: emitted_sat_def vars cts list_all_iff ball_Un)
    with old same off' show ?thesis by (intro exI [of _ a'] conjI)
  qed
  then have "\<forall>a. a (var_index opt) = 0 \<longrightarrow>
        (\<exists>a'. (\<forall>n < length (m_variables m). a' n = a n) \<and>
           map (\<lambda>v. a' (var_index v)) vs = map (\<lambda>v. a (var_index v)) vs \<and>
           a' (var_index opt) = 0 \<and> emitted_sat a' m m')"
    by simp
  with call show ?thesis by (intro exI conjI)
qed

theorem option_false_unrestricted_witness:
  "valid_input [ex_x, ex_y] ex_tuples \<and>
   var_index ex_x < length (m_variables ex_model) \<and>
   var_index ex_y < length (m_variables ex_model) \<and>
   var_index ex_o < length (m_variables ex_model) \<and>
   (\<exists>m'. table_optional (PyModel ex_model) (py_vars [ex_x, ex_y]) (py_tuples ex_tuples)
            (PyIntVar ex_o) = Inr m' \<and>
      (\<exists>a'. a' (var_index ex_x) = 4 \<and> a' (var_index ex_y) = 4 \<and> a' (var_index ex_o) = 0 \<and>
         [a' (var_index ex_x), a' (var_index ex_y)] \<notin> set ex_tuples \<and>
         emitted_sat a' ex_model m'))"
proof -
  have 1: "\<forall>v \<in> set [ex_x, ex_y]. var_index v < length (m_variables ex_model)"
    and 2: "var_index ex_o < length (m_variables ex_model)"
    by (simp_all add: ex_eval)
  from option_false_unrestricted [OF valid_ex 1 2] obtain m'
    where call: "table_optional (PyModel ex_model) (py_vars [ex_x, ex_y]) (py_tuples ex_tuples)
            (PyIntVar ex_o) = Inr m'"
      and free: "\<forall>a. a (var_index ex_o) = 0 \<longrightarrow>
        (\<exists>a'. (\<forall>n < length (m_variables ex_model). a' n = a n) \<and>
           map (\<lambda>v. a' (var_index v)) [ex_x, ex_y] = map (\<lambda>v. a (var_index v)) [ex_x, ex_y] \<and>
           a' (var_index ex_o) = 0 \<and> emitted_sat a' ex_model m')"
    by blast
  define a :: assignment where "a = (\<lambda>n. if n < 2 then 4 else 0)"
  have "a (var_index ex_o) = 0" by (simp add: a_def ex_o_def)
  with free obtain a' where
    same: "map (\<lambda>v. a' (var_index v)) [ex_x, ex_y] = map (\<lambda>v. a (var_index v)) [ex_x, ex_y]"
    and off: "a' (var_index ex_o) = 0" and sat: "emitted_sat a' ex_model m'"
    by blast
  from same have x: "a' (var_index ex_x) = 4" and y: "a' (var_index ex_y) = 4"
    by (simp_all add: a_def ex_x_def ex_y_def)
  then have "[a' (var_index ex_x), a' (var_index ex_y)] \<notin> set ex_tuples"
    by (simp add: ex_tuples_def)
  moreover from 1 have "var_index ex_x < length (m_variables ex_model)"
    "var_index ex_y < length (m_variables ex_model)" by simp_all
  ultimately show ?thesis using valid_ex 2 call x y off sat by (intro conjI exI)
qed

text \<open>
  C6. For every valid input, every position \<open>i\<close> and every value \<open>j\<close> in
  \<open>0..max_value\<close>: in every assignment that satisfies what was emitted, whatever the
  option, \<open>is_assigned[i][j]\<close> true forces \<open>variables[i] = j\<close>.
\<close>

theorem link_unconditional:
  assumes "valid_input vs ts"
  shows "\<exists>b ia m' mv.
     table_optional_body m vs ts opt = Inr (b, ia, m') \<and>
     table_optional (PyModel m) (py_vars vs) (py_tuples ts) (PyIntVar opt) = Inr m' \<and>
     max_value ts = Some mv \<and>
     (\<forall>a i j. emitted_sat a m m' \<and> i < length vs \<and> 0 \<le> j \<and> j \<le> mv \<and>
        a (var_index (ia ! i ! nat j)) = 1 \<longrightarrow> a (var_index (vs ! i)) = j)"
proof -
  from valid_call [OF assms] obtain b ia m'
    where body: "table_optional_body m vs ts opt = Inr (b, ia, m')"
      and call: "table_optional (PyModel m) (py_vars vs) (py_tuples ts) (PyIntVar opt) = Inr m'"
    by blast
  from body obtain mv where mv: "max_value ts = Some mv" by (rule table_optional_body_Inr)
  have "a (var_index (vs ! i)) = j"
    if sat: "emitted_sat a m m'" and i: "i < length vs" and j: "0 \<le> j" "j \<le> mv"
      and t: "a (var_index (ia ! i ! nat j)) = 1" for a i j
  proof -
    from body sat obtain mv' where "max_value ts = Some mv'"
      and link: "\<forall>i < length vs. \<forall>j < nat (mv' + 1).
        a (var_index (ia ! i ! j)) = 1 \<longrightarrow> a (var_index (vs ! i)) = int j"
      by (rule emitted_facts)
    with mv have "mv' = mv" by simp
    with j have "nat j < nat (mv' + 1)" by simp
    with link i t have "a (var_index (vs ! i)) = int (nat j)" by blast
    with j show ?thesis by simp
  qed
  then have "\<forall>a i j. emitted_sat a m m' \<and> i < length vs \<and> 0 \<le> j \<and> j \<le> mv \<and>
        a (var_index (ia ! i ! nat j)) = 1 \<longrightarrow> a (var_index (vs ! i)) = j"
    by simp
  with body call mv show ?thesis by (intro exI conjI)
qed

theorem link_unconditional_witness:
  "valid_input [ex_x, ex_y] ex_tuples \<and>
   (\<exists>b ia m'. table_optional_body ex_model [ex_x, ex_y] ex_tuples ex_o = Inr (b, ia, m') \<and>
      emitted_sat ex_off ex_model m' \<and> ex_off (var_index ex_o) = 0 \<and>
      ex_off (var_index (ia ! 0 ! nat 2)) = 1 \<and>
      ex_off (var_index ([ex_x, ex_y] ! 0)) = 2)"
proof -
  from link_unconditional [OF valid_ex, of ex_model ex_o] obtain b ia m' mv
    where body: "table_optional_body ex_model [ex_x, ex_y] ex_tuples ex_o = Inr (b, ia, m')"
      and mv: "max_value ex_tuples = Some mv"
      and link: "\<forall>a i j. emitted_sat a ex_model m' \<and> i < length [ex_x, ex_y] \<and>
        0 \<le> j \<and> j \<le> mv \<and> a (var_index (ia ! i ! nat j)) = 1 \<longrightarrow>
        a (var_index ([ex_x, ex_y] ! i)) = j"
    by blast
  have "max_value ex_tuples = Some 2" by (simp add: max_value_def ex_tuples_def)
  with mv have mv2: "mv = 2" by simp
  have "case table_optional_body ex_model [ex_x, ex_y] ex_tuples ex_o of
          Inl e \<Rightarrow> False
        | Inr (b, ia, m') \<Rightarrow>
            emitted_sat ex_off ex_model m' \<and> ex_off (var_index (ia ! 0 ! nat 2)) = 1"
    by (simp add: model_eval ex_eval ex_off_def)
  with body have sat: "emitted_sat ex_off ex_model m'"
    and t: "ex_off (var_index (ia ! 0 ! nat 2)) = 1" by simp_all
  have off: "ex_off (var_index ex_o) = 0" by (simp add: ex_off_def ex_o_def)
  from link have "emitted_sat ex_off ex_model m' \<and> 0 < length [ex_x, ex_y] \<and>
        (0::int) \<le> 2 \<and> 2 \<le> mv \<and> ex_off (var_index (ia ! 0 ! nat 2)) = 1 \<longrightarrow>
        ex_off (var_index ([ex_x, ex_y] ! 0)) = 2"
    by blast
  with sat t mv2 have "ex_off (var_index ([ex_x, ex_y] ! 0)) = 2" by simp
  with valid_ex body sat off t show ?thesis by (intro conjI exI)
qed

text \<open>
  C4. For every valid input, in every assignment that satisfies what was emitted with
  the option true, exactly one indicator \<open>b[k]\<close> is true, and for the tuple \<open>k\<close> it
  selects, at every position \<open>i\<close>, \<open>is_assigned[i][j]\<close> is true exactly for the tuple's
  value \<open>j\<close> at \<open>i\<close>, which is also the value of \<open>variables[i]\<close>.
\<close>

theorem exactly_one_tuple_indicator:
  assumes "valid_input vs ts"
  shows "\<exists>b ia m'.
     table_optional_body m vs ts opt = Inr (b, ia, m') \<and>
     table_optional (PyModel m) (py_vars vs) (py_tuples ts) (PyIntVar opt) = Inr m' \<and>
     length b = length ts \<and>
     (\<forall>a. emitted_sat a m m' \<and> a (var_index opt) = 1 \<longrightarrow>
        (\<exists>k < length ts. a (var_index (b ! k)) = 1 \<and>
           (\<forall>k' < length ts. a (var_index (b ! k')) = 1 \<longrightarrow> k' = k) \<and>
           (\<forall>i < length vs.
              a (var_index (ia ! i ! nat (ts ! k ! i))) = 1 \<and>
              (\<forall>j < length (ia ! i). a (var_index (ia ! i ! j)) = 1 \<longrightarrow> int j = ts ! k ! i) \<and>
              a (var_index (vs ! i)) = ts ! k ! i)))"
proof -
  from valid_call [OF assms] obtain b ia m'
    where body: "table_optional_body m vs ts opt = Inr (b, ia, m')"
      and call: "table_optional (PyModel m) (py_vars vs) (py_tuples ts) (PyIntVar opt) = Inr m'"
    by blast
  from body obtain mv where mv: "max_value ts = Some mv" and lb: "length b = length ts"
    and lrow: "\<forall>i < length vs. length (ia ! i) = nat (mv + 1)"
    by (rule table_optional_body_Inr)
  from assms have len: "\<forall>t \<in> set ts. length t = length vs"
    and pos: "\<forall>t \<in> set ts. \<forall>x \<in> set t. 0 \<le> x"
    by (simp_all add: valid_input_def)
  have "\<exists>k < length ts. a (var_index (b ! k)) = 1 \<and>
           (\<forall>k' < length ts. a (var_index (b ! k')) = 1 \<longrightarrow> k' = k) \<and>
           (\<forall>i < length vs.
              a (var_index (ia ! i ! nat (ts ! k ! i))) = 1 \<and>
              (\<forall>j < length (ia ! i). a (var_index (ia ! i ! j)) = 1 \<longrightarrow> int j = ts ! k ! i) \<and>
              a (var_index (vs ! i)) = ts ! k ! i)"
    if sat: "emitted_sat a m m'" and on: "a (var_index opt) = 1" for a
  proof -
    from body sat obtain mv' where mv': "max_value ts = Some mv'"
      and link: "\<forall>i < length vs. \<forall>j < nat (mv' + 1).
        a (var_index (ia ! i ! j)) = 1 \<longrightarrow> a (var_index (vs ! i)) = int j"
      by (rule emitted_facts)
    from mv mv' have [simp]: "mv' = mv" by simp
    from len have "\<forall>t \<in> set ts. length t \<le> length vs" by simp
    with body sat on pos obtain k where k: "k < length ts"
      and bk: "a (var_index (b ! k)) = 1"
      and uniq: "\<forall>k' < length ts. a (var_index (b ! k')) = 1 \<longrightarrow> k' = k"
      and eq: "\<forall>i < length (ts ! k). a (var_index (ia ! i ! nat (ts ! k ! i))) = 1 \<and>
        a (var_index (vs ! i)) = ts ! k ! i"
      by (rule selected_tuple)
    from k len have l: "length (ts ! k) = length vs" by simp
    have "a (var_index (ia ! i ! nat (ts ! k ! i))) = 1 \<and>
          (\<forall>j < length (ia ! i). a (var_index (ia ! i ! j)) = 1 \<longrightarrow> int j = ts ! k ! i) \<and>
          a (var_index (vs ! i)) = ts ! k ! i" if i: "i < length vs" for i
    proof (intro conjI allI impI)
      from eq i l show "a (var_index (ia ! i ! nat (ts ! k ! i))) = 1" by simp
      from eq i l show v: "a (var_index (vs ! i)) = ts ! k ! i" by simp
      fix j assume "j < length (ia ! i)" and t: "a (var_index (ia ! i ! j)) = 1"
      with lrow i have "j < nat (mv' + 1)" by simp
      with link i t have "a (var_index (vs ! i)) = int j" by blast
      with v show "int j = ts ! k ! i" by simp
    qed
    then have "\<forall>i < length vs.
              a (var_index (ia ! i ! nat (ts ! k ! i))) = 1 \<and>
              (\<forall>j < length (ia ! i). a (var_index (ia ! i ! j)) = 1 \<longrightarrow> int j = ts ! k ! i) \<and>
              a (var_index (vs ! i)) = ts ! k ! i" by simp
    with k bk uniq show ?thesis by (intro exI [of _ k] conjI)
  qed
  then have "\<forall>a. emitted_sat a m m' \<and> a (var_index opt) = 1 \<longrightarrow>
        (\<exists>k < length ts. a (var_index (b ! k)) = 1 \<and>
           (\<forall>k' < length ts. a (var_index (b ! k')) = 1 \<longrightarrow> k' = k) \<and>
           (\<forall>i < length vs.
              a (var_index (ia ! i ! nat (ts ! k ! i))) = 1 \<and>
              (\<forall>j < length (ia ! i). a (var_index (ia ! i ! j)) = 1 \<longrightarrow> int j = ts ! k ! i) \<and>
              a (var_index (vs ! i)) = ts ! k ! i))"
    by simp
  with body call lb show ?thesis by (intro exI conjI)
qed

theorem exactly_one_tuple_indicator_witness:
  "valid_input [ex_x, ex_y] ex_tuples \<and>
   (\<exists>b ia m'. table_optional_body ex_model [ex_x, ex_y] ex_tuples ex_o = Inr (b, ia, m') \<and>
      emitted_sat ex_on ex_model m' \<and> ex_on (var_index ex_o) = 1 \<and>
      ex_on (var_index (b ! 0)) = 0 \<and> ex_on (var_index (b ! 1)) = 1 \<and>
      ex_on (var_index (ia ! 0 ! nat (ex_tuples ! 1 ! 0))) = 1 \<and>
      ex_on (var_index (ia ! 1 ! nat (ex_tuples ! 1 ! 1))) = 1 \<and>
      ex_on (var_index ex_x) = ex_tuples ! 1 ! 0 \<and>
      ex_on (var_index ex_y) = ex_tuples ! 1 ! 1)"
proof -
  from exactly_one_tuple_indicator [OF valid_ex, of ex_model ex_o] obtain b ia m'
    where body: "table_optional_body ex_model [ex_x, ex_y] ex_tuples ex_o = Inr (b, ia, m')"
      and one: "\<forall>a. emitted_sat a ex_model m' \<and> a (var_index ex_o) = 1 \<longrightarrow>
        (\<exists>k < length ex_tuples. a (var_index (b ! k)) = 1 \<and>
           (\<forall>k' < length ex_tuples. a (var_index (b ! k')) = 1 \<longrightarrow> k' = k) \<and>
           (\<forall>i < length [ex_x, ex_y].
              a (var_index (ia ! i ! nat (ex_tuples ! k ! i))) = 1 \<and>
              (\<forall>j < length (ia ! i). a (var_index (ia ! i ! j)) = 1 \<longrightarrow>
                 int j = ex_tuples ! k ! i) \<and>
              a (var_index ([ex_x, ex_y] ! i)) = ex_tuples ! k ! i))"
    by blast
  have "case table_optional_body ex_model [ex_x, ex_y] ex_tuples ex_o of
          Inl e \<Rightarrow> False
        | Inr (b, ia, m') \<Rightarrow>
            emitted_sat ex_on ex_model m' \<and> ex_on (var_index (b ! 0)) = 0 \<and>
            ex_on (var_index (b ! 1)) = 1"
    by (simp add: model_eval ex_eval ex_on_def)
  with body have sat: "emitted_sat ex_on ex_model m'"
    and b0: "ex_on (var_index (b ! 0)) = 0" and b1: "ex_on (var_index (b ! 1)) = 1"
    by simp_all
  have on: "ex_on (var_index ex_o) = 1" by (simp add: ex_on_def ex_o_def)
  from one sat on obtain k where k: "k < length ex_tuples"
    and bk: "ex_on (var_index (b ! k)) = 1"
    and pos: "\<forall>i < length [ex_x, ex_y].
              ex_on (var_index (ia ! i ! nat (ex_tuples ! k ! i))) = 1 \<and>
              (\<forall>j < length (ia ! i). ex_on (var_index (ia ! i ! j)) = 1 \<longrightarrow>
                 int j = ex_tuples ! k ! i) \<and>
              ex_on (var_index ([ex_x, ex_y] ! i)) = ex_tuples ! k ! i"
    by blast
  from k have "k = 0 \<or> k = 1" by (auto simp: ex_tuples_def)
  with bk b0 have k1: "k = 1" by auto
  from pos have p0: "ex_on (var_index (ia ! 0 ! nat (ex_tuples ! k ! 0))) = 1 \<and>
    ex_on (var_index ([ex_x, ex_y] ! 0)) = ex_tuples ! k ! 0"
    by (elim allE [of _ 0]) simp
  from pos have p1: "ex_on (var_index (ia ! 1 ! nat (ex_tuples ! k ! 1))) = 1 \<and>
    ex_on (var_index ([ex_x, ex_y] ! 1)) = ex_tuples ! k ! 1"
    by (elim allE [of _ 1]) simp
  from p0 p1 have "ex_on (var_index (ia ! 0 ! nat (ex_tuples ! 1 ! 0))) = 1"
    "ex_on (var_index ex_x) = ex_tuples ! 1 ! 0"
    "ex_on (var_index (ia ! 1 ! nat (ex_tuples ! 1 ! 1))) = 1"
    "ex_on (var_index ex_y) = ex_tuples ! 1 ! 1"
    unfolding k1 by simp_all
  with valid_ex body sat on b0 b1 show ?thesis by (intro conjI exI)
qed

text \<open>
  C5. For every valid input, every position \<open>i\<close> and every value \<open>j\<close> in
  \<open>0..max_value\<close> that no tuple has at position \<open>i\<close>: no assignment that satisfies
  what was emitted with the option true gives \<open>variables[i]\<close> the value \<open>j\<close>, and
  \<open>is_assigned[i][j]\<close> is false in every such assignment.
\<close>

theorem domain_pruning:
  assumes "valid_input vs ts"
  shows "\<exists>b ia m' mv.
     table_optional_body m vs ts opt = Inr (b, ia, m') \<and>
     table_optional (PyModel m) (py_vars vs) (py_tuples ts) (PyIntVar opt) = Inr m' \<and>
     max_value ts = Some mv \<and>
     (\<forall>a i j. emitted_sat a m m' \<and> a (var_index opt) = 1 \<and> i < length vs \<and>
        0 \<le> j \<and> j \<le> mv \<and> (\<forall>t \<in> set ts. t ! i \<noteq> j) \<longrightarrow>
        a (var_index (vs ! i)) \<noteq> j \<and> a (var_index (ia ! i ! nat j)) = 0)"
proof -
  from valid_call [OF assms] obtain b ia m'
    where body: "table_optional_body m vs ts opt = Inr (b, ia, m')"
      and call: "table_optional (PyModel m) (py_vars vs) (py_tuples ts) (PyIntVar opt) = Inr m'"
    by blast
  from body obtain mv where mv: "max_value ts = Some mv"
    by (rule table_optional_body_Inr)
  from assms have len: "\<forall>t \<in> set ts. length t = length vs"
    and pos: "\<forall>t \<in> set ts. \<forall>x \<in> set t. 0 \<le> x"
    by (simp_all add: valid_input_def)
  have "a (var_index (vs ! i)) \<noteq> j \<and> a (var_index (ia ! i ! nat j)) = 0"
    if sat: "emitted_sat a m m'" and on: "a (var_index opt) = 1" and i: "i < length vs"
      and j: "0 \<le> j" "j \<le> mv" and absent: "\<forall>t \<in> set ts. t ! i \<noteq> j" for a i j
  proof
    from len have "\<forall>t \<in> set ts. length t \<le> length vs" by simp
    with body sat on pos obtain k where k: "k < length ts"
      and eq: "\<forall>i < length (ts ! k). a (var_index (ia ! i ! nat (ts ! k ! i))) = 1 \<and>
        a (var_index (vs ! i)) = ts ! k ! i"
      by (rule selected_tuple)
    from k len i have "i < length (ts ! k)" by simp
    with eq have "a (var_index (vs ! i)) = ts ! k ! i" by simp
    moreover from k absent have "ts ! k ! i \<noteq> j" by simp
    ultimately show "a (var_index (vs ! i)) \<noteq> j" by simp
  next
    from body sat obtain mv' pv where mv': "max_value ts = Some mv'"
      and pv: "add_tuples (init_possible_values (length vs)) ts = Some pv"
      and prune: "a (var_index opt) = 1 \<longrightarrow> (\<forall>i < length vs. \<forall>j < nat (mv' + 1).
        not_possible pv i (int j) \<longrightarrow> a (var_index (ia ! i ! j)) = 0)"
      by (rule emitted_facts)
    from mv mv' have "mv' = mv" by simp
    with j have jM: "nat j < nat (mv' + 1)" by simp
    from not_possible_absent [OF pv i absent] j have "not_possible pv i (int (nat j))" by simp
    with prune on i jM show "a (var_index (ia ! i ! nat j)) = 0" by blast
  qed
  then have "\<forall>a i j. emitted_sat a m m' \<and> a (var_index opt) = 1 \<and> i < length vs \<and>
        0 \<le> j \<and> j \<le> mv \<and> (\<forall>t \<in> set ts. t ! i \<noteq> j) \<longrightarrow>
        a (var_index (vs ! i)) \<noteq> j \<and> a (var_index (ia ! i ! nat j)) = 0"
    by simp
  with body call mv show ?thesis by (intro exI conjI)
qed

theorem domain_pruning_witness:
  "valid_input [ex_x, ex_y] ex_tuples \<and>
   (\<exists>b ia m'. table_optional_body ex_model [ex_x, ex_y] ex_tuples ex_o = Inr (b, ia, m') \<and>
      max_value ex_tuples = Some 2 \<and>
      emitted_sat ex_on ex_model m' \<and> ex_on (var_index ex_o) = 1 \<and>
      ex_tuples ! 0 ! 0 \<noteq> 1 \<and> ex_tuples ! 1 ! 0 \<noteq> 1 \<and>
      ex_on (var_index ([ex_x, ex_y] ! 0)) \<noteq> 1 \<and> ex_on (var_index (ia ! 0 ! nat 1)) = 0)"
proof -
  from domain_pruning [OF valid_ex, of ex_model ex_o] obtain b ia m' mv
    where body: "table_optional_body ex_model [ex_x, ex_y] ex_tuples ex_o = Inr (b, ia, m')"
      and mv: "max_value ex_tuples = Some mv"
      and prune: "\<forall>a i j. emitted_sat a ex_model m' \<and> a (var_index ex_o) = 1 \<and>
        i < length [ex_x, ex_y] \<and> 0 \<le> j \<and> j \<le> mv \<and> (\<forall>t \<in> set ex_tuples. t ! i \<noteq> j) \<longrightarrow>
        a (var_index ([ex_x, ex_y] ! i)) \<noteq> j \<and> a (var_index (ia ! i ! nat j)) = 0"
    by blast
  have mv2: "max_value ex_tuples = Some 2" by (simp add: max_value_def ex_tuples_def)
  with mv have "mv = 2" by simp
  have "case table_optional_body ex_model [ex_x, ex_y] ex_tuples ex_o of
          Inl e \<Rightarrow> False
        | Inr (b, ia, m') \<Rightarrow> emitted_sat ex_on ex_model m'"
    by (simp add: model_eval ex_eval ex_on_def)
  with body have sat: "emitted_sat ex_on ex_model m'" by simp
  have on: "ex_on (var_index ex_o) = 1" by (simp add: ex_on_def ex_o_def)
  have absent: "\<forall>t \<in> set ex_tuples. t ! 0 \<noteq> 1" by (simp add: ex_tuples_def)
  from prune have "emitted_sat ex_on ex_model m' \<and> ex_on (var_index ex_o) = 1 \<and>
        0 < length [ex_x, ex_y] \<and> (0::int) \<le> 1 \<and> 1 \<le> mv \<and> (\<forall>t \<in> set ex_tuples. t ! 0 \<noteq> 1) \<longrightarrow>
        ex_on (var_index ([ex_x, ex_y] ! 0)) \<noteq> 1 \<and> ex_on (var_index (ia ! 0 ! nat 1)) = 0"
    by blast
  with sat on absent \<open>mv = 2\<close> have "ex_on (var_index ([ex_x, ex_y] ! 0)) \<noteq> 1"
    "ex_on (var_index (ia ! 0 ! nat 1)) = 0" by simp_all
  moreover have "ex_tuples ! 0 ! 0 \<noteq> 1" "ex_tuples ! 1 ! 0 \<noteq> 1" by (simp_all add: ex_tuples_def)
  ultimately show ?thesis using valid_ex body mv2 sat on by (intro conjI exI)
qed

text \<open>
  C7. A call with an empty \<open>variables\<close>, with an empty \<open>tuples\<close>, or with a negative
  integer in some tuple fails an assertion, and the model argument is the one that was
  passed: no variable and no constraint has been added to it.
\<close>

theorem malformed_input_rejected:
  assumes "variables = PySeq [] \<or> tuples = PySeq [] \<or>
    (\<exists>ts t x. tuples = PySeq ts \<and> PySeq t \<in> set ts \<and> PyInt x \<in> set t \<and> x < 0)"
  shows "table_optional model variables tuples option = Inl (AssertionError, model)"
proof -
  from assms have "check_args model variables tuples option = None"
    by (auto simp: check_args_def check_tuples_negative split: pyobj.splits option.splits)
  then show ?thesis by (simp add: table_optional_def)
qed

theorem malformed_input_rejected_witness:
  "table_optional (PyModel ex_model) (PySeq []) (py_tuples ex_tuples) (PyIntVar ex_o) =
     Inl (AssertionError, PyModel ex_model) \<and>
   table_optional (PyModel ex_model) (py_vars [ex_x, ex_y]) (PySeq []) (PyIntVar ex_o) =
     Inl (AssertionError, PyModel ex_model) \<and>
   table_optional (PyModel ex_model) (py_vars [ex_x, ex_y])
     (PySeq [PySeq [PyInt 0, PyInt 1], PySeq [PyInt 2, PyInt (- 1)]]) (PyIntVar ex_o) =
     Inl (AssertionError, PyModel ex_model)"
proof -
  have "PySeq [PyInt 2, PyInt (- 1)] \<in> set [PySeq [PyInt 0, PyInt 1], PySeq [PyInt 2, PyInt (- 1)]]"
    "PyInt (- 1) \<in> set [PyInt 2, PyInt (- 1)]" "(- 1 :: int) < 0"
    by simp_all
  then have "\<exists>ts t x. PySeq [PySeq [PyInt 0, PyInt 1], PySeq [PyInt 2, PyInt (- 1)]] = PySeq ts \<and>
      PySeq t \<in> set ts \<and> PyInt x \<in> set t \<and> x < 0"
    by blast
  then show ?thesis
    using malformed_input_rejected [of "PySeq []" "py_tuples ex_tuples" "PyModel ex_model" "PyIntVar ex_o"]
      malformed_input_rejected [of "py_vars [ex_x, ex_y]" "PySeq []" "PyModel ex_model" "PyIntVar ex_o"]
      malformed_input_rejected [of "py_vars [ex_x, ex_y]"
        "PySeq [PySeq [PyInt 0, PyInt 1], PySeq [PyInt 2, PyInt (- 1)]]" "PyModel ex_model" "PyIntVar ex_o"]
    by simp
qed

text \<open>
  C9. Whenever \<open>table_optional\<close> returns, in every assignment that satisfies what was
  emitted, the option true or false, at most one \<open>is_assigned[i][j]\<close> is true for each
  position \<open>i\<close>: two true indicators would give \<open>variables[i]\<close> two values.
\<close>

theorem at_most_one_is_assigned:
  assumes "table_optional (PyModel m) (py_vars vs) (py_tuples ts) (PyIntVar opt) = Inr m'"
  shows "\<exists>b ia. table_optional_body m vs ts opt = Inr (b, ia, m') \<and> length ia = length vs \<and>
     (\<forall>a i j j'. emitted_sat a m m' \<and> i < length vs \<and>
        j < length (ia ! i) \<and> j' < length (ia ! i) \<and>
        a (var_index (ia ! i ! j)) = 1 \<and> a (var_index (ia ! i ! j')) = 1 \<longrightarrow> j = j')"
proof -
  from table_optional_Inr_body [OF assms] obtain b ia
    where body: "table_optional_body m vs ts opt = Inr (b, ia, m')" by blast
  from body obtain mv where lia: "length ia = length vs"
    and lrow: "\<forall>i < length vs. length (ia ! i) = nat (mv + 1)"
    and mv: "max_value ts = Some mv"
    by (rule table_optional_body_Inr)
  have "j = j'"
    if sat: "emitted_sat a m m'" and i: "i < length vs"
      and j: "j < length (ia ! i)" "j' < length (ia ! i)"
      and t: "a (var_index (ia ! i ! j)) = 1" "a (var_index (ia ! i ! j')) = 1" for a i j j'
  proof -
    from body sat obtain mv' where mv': "max_value ts = Some mv'"
      and link: "\<forall>i < length vs. \<forall>j < nat (mv' + 1).
        a (var_index (ia ! i ! j)) = 1 \<longrightarrow> a (var_index (vs ! i)) = int j"
      by (rule emitted_facts)
    from mv mv' have "mv' = mv" by simp
    with lrow i j have "j < nat (mv' + 1)" "j' < nat (mv' + 1)" by simp_all
    with link i t have "a (var_index (vs ! i)) = int j" "a (var_index (vs ! i)) = int j'"
      by blast+
    then show ?thesis by simp
  qed
  then have "\<forall>a i j j'. emitted_sat a m m' \<and> i < length vs \<and>
        j < length (ia ! i) \<and> j' < length (ia ! i) \<and>
        a (var_index (ia ! i ! j)) = 1 \<and> a (var_index (ia ! i ! j')) = 1 \<longrightarrow> j = j'"
    by blast
  with body lia show ?thesis by (intro exI conjI)
qed

theorem at_most_one_is_assigned_witness:
  "\<exists>b ia m'.
      table_optional (PyModel ex_model) (py_vars [ex_x, ex_y]) (py_tuples ex_tuples)
        (PyIntVar ex_o) = Inr m' \<and>
      table_optional_body ex_model [ex_x, ex_y] ex_tuples ex_o = Inr (b, ia, m') \<and>
      emitted_sat ex_off ex_model m' \<and> ex_off (var_index ex_o) = 0 \<and>
      length (ia ! 0) = 3 \<and>
      ex_off (var_index (ia ! 0 ! 2)) = 1 \<and>
      ex_off (var_index (ia ! 0 ! 0)) \<noteq> 1 \<and> ex_off (var_index (ia ! 0 ! 1)) \<noteq> 1"
proof -
  from valid_call [OF valid_ex, of ex_model ex_o] obtain m'
    where call: "table_optional (PyModel ex_model) (py_vars [ex_x, ex_y]) (py_tuples ex_tuples)
            (PyIntVar ex_o) = Inr m'"
    by blast
  from at_most_one_is_assigned [OF call] obtain b ia
    where body: "table_optional_body ex_model [ex_x, ex_y] ex_tuples ex_o = Inr (b, ia, m')"
      and amo: "\<forall>a i j j'. emitted_sat a ex_model m' \<and> i < length [ex_x, ex_y] \<and>
        j < length (ia ! i) \<and> j' < length (ia ! i) \<and>
        a (var_index (ia ! i ! j)) = 1 \<and> a (var_index (ia ! i ! j')) = 1 \<longrightarrow> j = j'"
    by blast
  have "case table_optional_body ex_model [ex_x, ex_y] ex_tuples ex_o of
          Inl e \<Rightarrow> False
        | Inr (b, ia, m') \<Rightarrow>
            emitted_sat ex_off ex_model m' \<and> length (ia ! 0) = 3 \<and>
            ex_off (var_index (ia ! 0 ! 2)) = 1"
    by (simp add: model_eval ex_eval ex_off_def)
  with body have sat: "emitted_sat ex_off ex_model m'" and l: "length (ia ! 0) = 3"
    and t: "ex_off (var_index (ia ! 0 ! 2)) = 1" by simp_all
  have off: "ex_off (var_index ex_o) = 0" by (simp add: ex_off_def ex_o_def)
  have other: "ex_off (var_index (ia ! 0 ! j)) \<noteq> 1" if j: "j < 2" for j
  proof
    assume "ex_off (var_index (ia ! 0 ! j)) = 1"
    with sat l t j have "emitted_sat ex_off ex_model m' \<and> 0 < length [ex_x, ex_y] \<and>
        j < length (ia ! 0) \<and> 2 < length (ia ! 0) \<and>
        ex_off (var_index (ia ! 0 ! j)) = 1 \<and> ex_off (var_index (ia ! 0 ! 2)) = 1" by simp
    with amo have "j = 2" by blast
    with j show False by simp
  qed
  from other [of 0] other [of 1] have "ex_off (var_index (ia ! 0 ! 0)) \<noteq> 1"
    "ex_off (var_index (ia ! 0 ! 1)) \<noteq> 1" by simp_all
  with call body sat off l t show ?thesis by (intro conjI exI)
qed

text \<open>
  C10. The assertions accept as \<open>option\<close> any integer decision variable, whatever its
  domain: on a valid input the checks of lines 20 to 33 pass for a variable with any
  bounds \<open>l\<close> and \<open>u\<close> and hand the arguments on to the encoding of line 37 onwards, and
  being an integer decision variable is all they ask of \<open>option\<close>. What the engine then
  does with an enforcement literal that is not Boolean is the engine's matter and is
  not stated here.
\<close>

theorem option_need_not_be_boolean:
  assumes "valid_input vs ts"
  shows "check_args (PyModel m) (py_vars vs) (py_tuples ts)
       (PyIntVar \<lparr>var_index = n, var_name = nm, var_lb = l, var_ub = u\<rparr>) =
       Some (m, vs, ts, \<lparr>var_index = n, var_name = nm, var_lb = l, var_ub = u\<rparr>) \<and>
     (check_args (PyModel m) (py_vars vs) (py_tuples ts) option \<noteq> None) =
       (\<exists>opt. option = PyIntVar opt)"
proof
  show "check_args (PyModel m) (py_vars vs) (py_tuples ts)
       (PyIntVar \<lparr>var_index = n, var_name = nm, var_lb = l, var_ub = u\<rparr>) =
       Some (m, vs, ts, \<lparr>var_index = n, var_name = nm, var_lb = l, var_ub = u\<rparr>)"
    by (simp add: check_args_option [OF assms])
  show "(check_args (PyModel m) (py_vars vs) (py_tuples ts) option \<noteq> None) =
       (\<exists>opt. option = PyIntVar opt)"
    by (cases option) (simp_all add: check_args_option [OF assms])
qed

theorem option_need_not_be_boolean_witness:
  "valid_input [ex_x, ex_y] ex_tuples \<and>
   check_args (PyModel ex_model) (py_vars [ex_x, ex_y]) (py_tuples ex_tuples)
     (PyIntVar \<lparr>var_index = 1, var_name = ''y'', var_lb = 0, var_ub = 5\<rparr>) =
     Some (ex_model, [ex_x, ex_y], ex_tuples,
       \<lparr>var_index = 1, var_name = ''y'', var_lb = 0, var_ub = 5\<rparr>) \<and>
   check_args (PyModel ex_model) (py_vars [ex_x, ex_y]) (py_tuples ex_tuples) (PyInt 1) = None"
proof -
  note t = option_need_not_be_boolean [OF valid_ex, of ex_model 1 "''y''" 0 5 "PyInt 1"]
  from t have 1: "check_args (PyModel ex_model) (py_vars [ex_x, ex_y]) (py_tuples ex_tuples)
     (PyIntVar \<lparr>var_index = 1, var_name = ''y'', var_lb = 0, var_ub = 5\<rparr>) =
     Some (ex_model, [ex_x, ex_y], ex_tuples,
       \<lparr>var_index = 1, var_name = ''y'', var_lb = 0, var_ub = 5\<rparr>)"
    by (rule conjunct1)
  from t have "(check_args (PyModel ex_model) (py_vars [ex_x, ex_y]) (py_tuples ex_tuples)
      (PyInt 1) \<noteq> None) = (\<exists>opt. PyInt 1 = PyIntVar opt)"
    by (rule conjunct2)
  then have 2: "check_args (PyModel ex_model) (py_vars [ex_x, ex_y]) (py_tuples ex_tuples)
      (PyInt 1) = None"
    by (cases "check_args (PyModel ex_model) (py_vars [ex_x, ex_y]) (py_tuples ex_tuples)
      (PyInt 1)") simp_all
  from valid_ex 1 2 show ?thesis by (intro conjI)
qed

text \<open>
  C3. A call in which some tuple, the first or a later one, has a length other than the
  number of variables should be rejected before the model is touched. It is not: the
  source only compares the first tuple's length (line 32). With two variables and the
  tuples \<open>(0, 1)\<close> and \<open>(2)\<close> the call returns normally, having added 8 variables and
  14 constraints, and the emitted constraints have a solution with the option true
  whose variables \<open>(2, 1)\<close> are no tuple. With the tuples \<open>(0, 1)\<close> and \<open>(2, 3, 4)\<close> the call raises \<open>KeyError\<close> at line
  44, after line 37 has added the two variables \<open>b\<close> to the model.
\<close>

theorem unequal_tuple_lengths_not_rejected:
  "(\<exists>m'. table_optional (PyModel ex_model) (py_vars [ex_x, ex_y]) (py_tuples [[0, 1], [2]])
            (PyIntVar ex_o) = Inr m' \<and>
      length (m_variables m') = length (m_variables ex_model) + 8 \<and>
      length (m_constraints m') = length (m_constraints ex_model) + 14 \<and>
      emitted_sat ex_short ex_model m' \<and> ex_short (var_index ex_o) = 1 \<and>
      map (\<lambda>v. ex_short (var_index v)) [ex_x, ex_y] = [2, 1]) \<and>
   (\<exists>m1. table_optional (PyModel ex_model) (py_vars [ex_x, ex_y]) (py_tuples [[0, 1], [2, 3, 4]])
            (PyIntVar ex_o) = Inl (KeyError, PyModel m1) \<and>
      length (m_variables m1) = length (m_variables ex_model) + 2)"
proof -
  have "case table_optional (PyModel ex_model) (py_vars [ex_x, ex_y]) (py_tuples [[0, 1], [2]])
            (PyIntVar ex_o) of
          Inl e \<Rightarrow> False
        | Inr m' \<Rightarrow>
            length (m_variables m') = length (m_variables ex_model) + 8 \<and>
            length (m_constraints m') = length (m_constraints ex_model) + 14 \<and>
            emitted_sat ex_short ex_model m' \<and> ex_short (var_index ex_o) = 1 \<and>
            map (\<lambda>v. ex_short (var_index v)) [ex_x, ex_y] = [2, 1]"
    by (simp add: table_optional_typed model_eval ex_eval ex_short_def)
  then have 1: "\<exists>m'. table_optional (PyModel ex_model) (py_vars [ex_x, ex_y]) (py_tuples [[0, 1], [2]])
            (PyIntVar ex_o) = Inr m' \<and>
      length (m_variables m') = length (m_variables ex_model) + 8 \<and>
      length (m_constraints m') = length (m_constraints ex_model) + 14 \<and>
      emitted_sat ex_short ex_model m' \<and> ex_short (var_index ex_o) = 1 \<and>
      map (\<lambda>v. ex_short (var_index v)) [ex_x, ex_y] = [2, 1]"
    by (cases "table_optional (PyModel ex_model) (py_vars [ex_x, ex_y]) (py_tuples [[0, 1], [2]])
            (PyIntVar ex_o)") simp_all
  have "case table_optional (PyModel ex_model) (py_vars [ex_x, ex_y]) (py_tuples [[0, 1], [2, 3, 4]])
            (PyIntVar ex_o) of
          Inl (e, m1) \<Rightarrow> e = KeyError \<and>
            (case m1 of PyModel m1 \<Rightarrow> length (m_variables m1) = length (m_variables ex_model) + 2
             | _ \<Rightarrow> False)
        | Inr m' \<Rightarrow> False"
    by (simp add: table_optional_typed model_eval ex_eval)
  then have 2: "\<exists>m1. table_optional (PyModel ex_model) (py_vars [ex_x, ex_y])
            (py_tuples [[0, 1], [2, 3, 4]]) (PyIntVar ex_o) = Inl (KeyError, PyModel m1) \<and>
      length (m_variables m1) = length (m_variables ex_model) + 2"
    by (auto split: sum.splits prod.splits pyobj.splits)
  from 1 2 show ?thesis by (rule conjI)
qed

text \<open>
  C8. The demonstration: five variables in \<open>[0, 10]\<close>, the tuples \<open>(0, 1, 2, 3, 4)\<close> and
  \<open>(5, 6, 7, 8, 9)\<close>, the option fixed to true, the sum of the variables minimised. The
  model has a solution with the variables \<open>(0, 1, 2, 3, 4)\<close> and the objective 10; every
  solution has an objective of at least 10, and every solution with the objective 10
  has the variables \<open>(0, 1, 2, 3, 4)\<close>.
\<close>

theorem demo_optimum:
  "\<exists>v b m. demo = Inr (v, b, m) \<and>
     (\<exists>a. satisfies a m \<and> map (\<lambda>x. a (var_index x)) v = [0, 1, 2, 3, 4] \<and>
        objective_value a m = 10) \<and>
     (\<forall>a. satisfies a m \<longrightarrow>
        10 \<le> objective_value a m \<and>
        (objective_value a m = 10 \<longrightarrow> map (\<lambda>x. a (var_index x)) v = [0, 1, 2, 3, 4]))"
proof -
  let ?ts = "[[0, 1, 2, 3, 4], [5, 6, 7, 8, 9 :: int]]"
  obtain v b m2 m3 bb ia where d: "demo = Inr (v, b, Add [b] 1 [] (Minimize v m3))"
    and lv: "length v = 5"
    and body: "table_optional_body m2 v ?ts b = Inr (bb, ia, m3)"
    by (rule demo_eq)
  define m where "m = Add [b] 1 [] (Minimize v m3)"
  from body obtain mv pv where vars: "m_variables m3 = m_variables m2 @ bb @ concat ia"
    and cts: "m_constraints m3 = m_constraints m2 @
       prune_cts pv ia b (length v) (nat (mv + 1)) @
       map (\<lambda>row. linear_eq row 1 [b]) ia @
       link_cts v ia (length v) (nat (mv + 1)) @
       table_cts ?ts ia bb @ [linear_eq bb 1 [b]]"
    by (rule table_optional_body_Inr)
  have mvars: "m_variables m = m_variables m3"
    and mcts: "m_constraints m = m_constraints m3 @ [linear_eq [b] 1 []]"
    and mobj: "m_objective m = Some (map var_index v)"
    by (simp_all add: m_def Minimize_def Add_def)
  have ex: "satisfies demo_solution m \<and>
       map (\<lambda>x. demo_solution (var_index x)) v = [0, 1, 2, 3, 4] \<and>
       objective_value demo_solution m = 10"
    using demo_solution_ok unfolding d m_def by simp
  have best: "10 \<le> objective_value a m \<and>
        (objective_value a m = 10 \<longrightarrow> map (\<lambda>x. a (var_index x)) v = [0, 1, 2, 3, 4])"
    if sat: "satisfies a m" for a
  proof -
    from sat have "list_all (in_domain a) (m_variables m3)"
      and c3: "list_all (ct_holds a) (m_constraints m3)"
      and one: "ct_holds a (linear_eq [b] 1 [])"
      by (simp_all add: satisfies_def mvars mcts)
    then have es: "emitted_sat a m2 m3"
      by (simp add: emitted_sat_def list_all_drop)
    from one have on: "a (var_index b) = 1"
      by (simp add: ct_holds_def linear_eq_def)
    have pos: "\<forall>t \<in> set ?ts. \<forall>x \<in> set t. 0 \<le> x" by simp
    from lv have len: "\<forall>t \<in> set ?ts. length t \<le> length v" by simp
    from body es on pos len obtain k where k: "k < length ?ts"
      and eq: "\<forall>i < length (?ts ! k). a (var_index (ia ! i ! nat (?ts ! k ! i))) = 1 \<and>
        a (var_index (v ! i)) = ?ts ! k ! i"
      by (rule selected_tuple)
    from k have l: "length (?ts ! k) = length v" using lv by (auto simp: nth_Cons')
    with eq have row: "map (\<lambda>x. a (var_index x)) v = ?ts ! k"
      by (intro nth_equalityI) simp_all
    have "objective_value a m = sum_list (map (\<lambda>x. a (var_index x)) v)"
      by (simp add: objective_value_def mobj comp_def)
    with row have obj: "objective_value a m = sum_list (?ts ! k)" by simp
    from k have "k = 0 \<or> k = 1" by auto
    then show ?thesis
    proof
      assume "k = 0"
      with obj row show ?thesis by simp
    next
      assume "k = 1"
      with obj row show ?thesis by simp
    qed
  qed
  from ex have "\<exists>a. satisfies a m \<and> map (\<lambda>x. a (var_index x)) v = [0, 1, 2, 3, 4] \<and>
        objective_value a m = 10"
    by (rule exI [of _ demo_solution])
  moreover from best have "\<forall>a. satisfies a m \<longrightarrow>
        10 \<le> objective_value a m \<and>
        (objective_value a m = 10 \<longrightarrow> map (\<lambda>x. a (var_index x)) v = [0, 1, 2, 3, 4])"
    by simp
  moreover from d have "demo = Inr (v, b, m)" by (simp add: m_def)
  ultimately have "demo = Inr (v, b, m) \<and>
     (\<exists>a. satisfies a m \<and> map (\<lambda>x. a (var_index x)) v = [0, 1, 2, 3, 4] \<and>
        objective_value a m = 10) \<and>
     (\<forall>a. satisfies a m \<longrightarrow>
        10 \<le> objective_value a m \<and>
        (objective_value a m = 10 \<longrightarrow> map (\<lambda>x. a (var_index x)) v = [0, 1, 2, 3, 4]))"
    by (intro conjI)
  then show ?thesis by (intro exI [of _ v] exI [of _ b] exI [of _ m])
qed

theorem demo_optimum_witness:
  "\<exists>v b m. demo = Inr (v, b, m) \<and> satisfies demo_solution m \<and>
     objective_value demo_solution m = 10 \<and>
     map (\<lambda>x. demo_solution (var_index x)) v = [0, 1, 2, 3, 4]"
  using demo_optimum
proof (elim exE conjE)
  fix v b m
  assume d: "demo = Inr (v, b, m)"
    and best: "\<forall>a. satisfies a m \<longrightarrow>
        10 \<le> objective_value a m \<and>
        (objective_value a m = 10 \<longrightarrow> map (\<lambda>x. a (var_index x)) v = [0, 1, 2, 3, 4])"
  have sat: "satisfies demo_solution m"
    and obj: "objective_value demo_solution m = 10"
    using demo_solution_ok unfolding d by simp_all
  from best have "satisfies demo_solution m \<longrightarrow>
        10 \<le> objective_value demo_solution m \<and>
        (objective_value demo_solution m = 10 \<longrightarrow>
           map (\<lambda>x. demo_solution (var_index x)) v = [0, 1, 2, 3, 4])"
    by (rule spec)
  with sat obj have "map (\<lambda>x. demo_solution (var_index x)) v = [0, 1, 2, 3, 4]" by simp
  with d sat obj show ?thesis by (intro exI conjI)
qed

end
